theory Spec2Isabelle
  imports Complex_Main "HOL-Library.Sublist"
begin

section \<open>Python strings\<close>

text \<open>
  The parser of \<^verbatim>\<open>parse_payment_summary.py\<close> is a chain of string heuristics. A Python
  \<^verbatim>\<open>str\<close> is modelled as a \<^typ>\<open>string\<close>, one \<^typ>\<open>char\<close> per character, for ASCII
  text: the character classes below are Python's on the code points below 128
  (\<^verbatim>\<open>str.isspace\<close> and the pattern \<^verbatim>\<open>\s\<close> hold for 9-13, 28-31 and 32; \<^verbatim>\<open>\d\<close> for the ten
  digits; \<^verbatim>\<open>\w\<close> for letters, digits and the underscore), and \<^verbatim>\<open>str.upper\<close> maps a-z to
  A-Z. Characters outside ASCII are left alone by every operation of the model; the
  source's replacements of the en dash, the em dash and the typographic quotes have
  nothing to replace in ASCII text and are therefore the identity here.
\<close>

definition is_space :: "char \<Rightarrow> bool" where
  "is_space c \<longleftrightarrow> c \<in> {CHR 0x09, CHR 0x0A, CHR 0x0B, CHR 0x0C, CHR 0x0D,
                        CHR 0x1C, CHR 0x1D, CHR 0x1E, CHR 0x1F, CHR '' ''}"

definition is_digit :: "char \<Rightarrow> bool" where
  "is_digit c \<longleftrightarrow> c \<in> set ''0123456789''"

definition is_upper :: "char \<Rightarrow> bool" where
  "is_upper c \<longleftrightarrow> c \<in> set ''ABCDEFGHIJKLMNOPQRSTUVWXYZ''"

definition is_lower :: "char \<Rightarrow> bool" where
  "is_lower c \<longleftrightarrow> c \<in> set ''abcdefghijklmnopqrstuvwxyz''"

definition is_alpha :: "char \<Rightarrow> bool" where
  "is_alpha c \<longleftrightarrow> is_upper c \<or> is_lower c"

definition is_word_char :: "char \<Rightarrow> bool" where
  "is_word_char c \<longleftrightarrow> is_alpha c \<or> is_digit c \<or> c = CHR ''_''"

definition upper_char :: "char \<Rightarrow> char" where
  "upper_char c =
     (case map_of (zip ''abcdefghijklmnopqrstuvwxyz'' ''ABCDEFGHIJKLMNOPQRSTUVWXYZ'') c of
        Some u \<Rightarrow> u | None \<Rightarrow> c)"

definition lower_char :: "char \<Rightarrow> char" where
  "lower_char c =
     (case map_of (zip ''ABCDEFGHIJKLMNOPQRSTUVWXYZ'' ''abcdefghijklmnopqrstuvwxyz'') c of
        Some l \<Rightarrow> l | None \<Rightarrow> c)"

definition upper :: "string \<Rightarrow> string" where
  "upper s = map upper_char s"

text \<open>\<^verbatim>\<open>s.lstrip()\<close>, \<^verbatim>\<open>s.rstrip()\<close>, \<^verbatim>\<open>s.strip()\<close> and \<^verbatim>\<open>s.strip(chars)\<close>.\<close>

definition lstrip :: "string \<Rightarrow> string" where
  "lstrip s = dropWhile is_space s"

definition rstrip :: "string \<Rightarrow> string" where
  "rstrip s = rev (dropWhile is_space (rev s))"

definition strip :: "string \<Rightarrow> string" where
  "strip s = rstrip (lstrip s)"

definition strip_chars :: "string \<Rightarrow> string \<Rightarrow> string" where
  "strip_chars chars s =
     rev (dropWhile (\<lambda>c. c \<in> set chars) (rev (dropWhile (\<lambda>c. c \<in> set chars) s)))"

text \<open>\<^verbatim>\<open>sub in s\<close> and \<^verbatim>\<open>s.endswith(t)\<close>; \<^verbatim>\<open>s.startswith(t)\<close> is \<^const>\<open>prefix\<close>.\<close>

fun py_in :: "string \<Rightarrow> string \<Rightarrow> bool" where
  "py_in sub [] = (sub = [])"
| "py_in sub (c # cs) = (prefix sub (c # cs) \<or> py_in sub cs)"

definition endswith :: "string \<Rightarrow> string \<Rightarrow> bool" where
  "endswith s t \<longleftrightarrow> length t \<le> length s \<and> drop (length s - length t) s = t"

text \<open>
  \<^verbatim>\<open>s.replace(old, new)\<close>: the occurrences of \<^verbatim>\<open>old\<close> are found from the left and do not
  overlap. With an empty \<^verbatim>\<open>old\<close>, Python puts \<^verbatim>\<open>new\<close> before every character and at the
  end.
\<close>

fun replace :: "string \<Rightarrow> string \<Rightarrow> string \<Rightarrow> string" where
  "replace old new [] = (if old = [] then new else [])"
| "replace old new (c # cs) =
     (if old = [] then new @ c # replace old new cs
      else if prefix old (c # cs) then new @ replace old new (drop (length old - 1) cs)
      else c # replace old new cs)"

text \<open>\<^verbatim>\<open>re.sub(r"\s+", " ", s)\<close>, and \<^verbatim>\<open>_normalize_spaces\<close>, which strips the result.\<close>

function collapse_ws :: "string \<Rightarrow> string" where
  "collapse_ws [] = []"
| "collapse_ws (c # cs) =
     (if is_space c then CHR '' '' # collapse_ws (dropWhile is_space cs)
      else c # collapse_ws cs)"
  by pat_completeness auto
termination
  by (relation "measure length") (auto simp: le_imp_less_Suc length_dropWhile_le)

definition normalize_spaces :: "string \<Rightarrow> string" where
  "normalize_spaces s = strip (collapse_ws s)"

text \<open>
  \<^verbatim>\<open>s.rsplit(sep, 1)[0]\<close> for a non-empty \<^verbatim>\<open>sep\<close>: the text before the last occurrence of
  \<^verbatim>\<open>sep\<close>, and all of \<^verbatim>\<open>s\<close> when there is none. \<open>rfind sep s\<close> is the start of the last
  occurrence.
\<close>

fun rfind :: "string \<Rightarrow> string \<Rightarrow> nat option" where
  "rfind sep [] = (if sep = [] then Some 0 else None)"
| "rfind sep (c # cs) =
     (case rfind sep cs of
        Some i \<Rightarrow> Some (Suc i)
      | None \<Rightarrow> if prefix sep (c # cs) then Some 0 else None)"

definition rsplit1_head :: "string \<Rightarrow> string \<Rightarrow> string" where
  "rsplit1_head sep s = (case rfind sep s of Some i \<Rightarrow> take i s | None \<Rightarrow> s)"

section \<open>Category normalization\<close>

text \<open>
  \<^verbatim>\<open>_CATEGORY_CANON\<close>, in the order of the source. The keys are distinct, so the
  dictionary is the \<^const>\<open>map_of\<close> of the list.
\<close>

definition CATEGORY_CANON :: "(string \<times> string) list" where
  "CATEGORY_CANON =
    [(''ACCESS BONUS PAYMENT'', ''ACCESS BONUS PAYMENT''),
     (''LTC ACCESS BONUS PAYMENT'', ''LTC ACCESS BONUS PAYMENT''),
     (''GROUP MANAGEMENT LEADERSHIP PAYMENT'', ''GROUP MANAGEMENT LEADERSHIP PAYMENT''),
     (''OFFICE PRACTICE ADMINISTRATION PAYMENT'', ''OFFICE PRACTICE ADMINISTRATION PAYMENT''),
     (''HCP RELATIVITY PAYMENT'', ''HCP RELATIVITY PAYMENT''),
     (''RMB RELATIVITY PAYMENT'', ''RMB RELATIVITY PAYMENT''),
     (''WSIB RELATIVITY PAYMENT'', ''WSIB RELATIVITY PAYMENT''),
     (''YEAR 1 (2024-2025) COMPENSATION INCREASE'', ''YEAR 1 (2024-2025) COMPENSATION INCREASE''),
     (''NETWORK BASE RATE PAYMENT'', ''NETWORK BASE RATE PAYMENT''),
     (''BASE RATE PAYMENT RECONCILIATION ADJMT'', ''BASE RATE PAYMENT RECONCILIATION ADJMT''),
     (''BASE RATE ACUITY PAYMENT'', ''BASE RATE ACUITY PAYMENT''),
     (''BASE RATE ACUITY ADJUSTMENT'', ''BASE RATE ACUITY ADJUSTMENT''),
     (''COMP CARE CAPITATION'', ''COMP CARE CAPITATION''),
     (''COMP CARE RECONCILIATION'', ''COMP CARE RECONCILIATION''),
     (''BLENDED FEE-FOR-SERVICE PREMIUM'', ''BLENDED FEE-FOR-SERVICE PREMIUM''),
     (''BLENDED FEE FOR SERVICE PREMIUM'', ''BLENDED FEE-FOR-SERVICE PREMIUM''),
     (''PREVENTIVE CARE BONUS'', ''PREVENTIVE CARE BONUS''),
     (''TOTAL CLAIMS PAYABLE'', ''TOTAL CLAIMS PAYABLE''),
     (''AGE PREMIUM PAYMENT'', ''AGE PREMIUM PAYMENT''),
     (''SPECIAL PREMIUM PAYMENT'', ''SPECIAL PREMIUM PAYMENT'')]"

text \<open>
  The substitution of the YEAR line,
  \<^verbatim>\<open>re.sub(r"\bYEAR\s*(\d)\s*\((\d{4}-\d{4})\)\s*COMPENSATION\s*INCREASE", r"YEAR \1 (\2) COMPENSATION INCREASE", cat)\<close>.
  Every \<^verbatim>\<open>\s*\<close> is followed by something that is not white space, so it takes all the white
  space there is. \<open>match_year s\<close> matches the pattern (without its \<^verbatim>\<open>\b\<close>) at the start of
  \<open>s\<close> and returns the replacement and the number of characters matched.
\<close>

definition strip_prefix :: "string \<Rightarrow> string \<Rightarrow> string option" where
  "strip_prefix p s = (if prefix p s then Some (drop (length p) s) else None)"

definition match_year :: "string \<Rightarrow> (string \<times> nat) option" where
  "match_year s =
     (case strip_prefix ''YEAR'' s of None \<Rightarrow> None | Some r1 \<Rightarrow>
      (case dropWhile is_space r1 of [] \<Rightarrow> None | d # r2 \<Rightarrow>
       if \<not> is_digit d then None else
       (case strip_prefix ''('' (dropWhile is_space r2) of None \<Rightarrow> None | Some r3 \<Rightarrow>
        let rng = take 9 r3; r4 = drop 9 r3 in
        if \<not> (length rng = 9 \<and> list_all is_digit (take 4 rng) \<and> rng ! 4 = CHR ''-''
                \<and> list_all is_digit (drop 5 rng)) then None else
        (case strip_prefix '')'' r4 of None \<Rightarrow> None | Some r5 \<Rightarrow>
         (case strip_prefix ''COMPENSATION'' (dropWhile is_space r5) of None \<Rightarrow> None | Some r6 \<Rightarrow>
          (case strip_prefix ''INCREASE'' (dropWhile is_space r6) of None \<Rightarrow> None | Some r7 \<Rightarrow>
             Some (''YEAR '' @ [d] @ '' ('' @ rng @ '') COMPENSATION INCREASE'',
                   length s - length r7)))))))"

text \<open>
  \<open>year_sub prev skip s\<close> scans \<open>s\<close> from the left as \<^verbatim>\<open>re.sub\<close> does; \<open>prev\<close> is the
  character before the position (for the \<^verbatim>\<open>\b\<close>: YEAR must not follow a word character)
  and \<open>skip\<close> counts the characters of a match that are still to be passed over.
\<close>

fun year_sub :: "char option \<Rightarrow> nat \<Rightarrow> string \<Rightarrow> string" where
  "year_sub prev skip [] = []"
| "year_sub prev (Suc k) (c # cs) = year_sub (Some c) k cs"
| "year_sub prev 0 (c # cs) =
     (if (case prev of None \<Rightarrow> True | Some p \<Rightarrow> \<not> is_word_char p) then
        (case match_year (c # cs) of
           Some (rep, n) \<Rightarrow> rep @ year_sub (Some c) (n - 1) cs
         | None \<Rightarrow> c # year_sub (Some c) 0 cs)
      else c # year_sub (Some c) 0 cs)"

text \<open>
  \<open>canon_key\<close> is the local \<^verbatim>\<open>cat\<close> of \<^verbatim>\<open>normalize_category\<close> when the table is looked up,
  \<open>canon_match\<close> the two lookups (exact, then with the hyphens replaced by spaces).
\<close>

definition canon_key :: "string \<Rightarrow> string" where
  "canon_key cat_raw =
     (let cat = upper cat_raw;
          cat = replace ''  '' '' '' cat;
          cat = year_sub None 0 cat;
          cat = strip_chars '' :-'' cat;
          cat = replace ''FEE - FOR - SERVICE'' ''FEE FOR SERVICE'' cat;
          cat = replace ''FEE-FOR-SERVICE'' ''FEE-FOR-SERVICE'' cat
      in normalize_spaces cat)"

definition canon_match :: "string \<Rightarrow> string option" where
  "canon_match cat_raw =
     (let cat = canon_key cat_raw in
      case map_of CATEGORY_CANON cat of
        Some v \<Rightarrow> Some v
      | None \<Rightarrow> map_of CATEGORY_CANON (replace ''-'' '' '' cat))"

definition normalize_category :: "string \<Rightarrow> string" where
  "normalize_category cat_raw =
     (case canon_match cat_raw of Some v \<Rightarrow> v | None \<Rightarrow> strip cat_raw)"

section \<open>The line-to-record heuristic\<close>

text \<open>
  \<^verbatim>\<open>_NUM_RE = re.compile(r"(-?\d{1,3}(?:,\d{3})*(?:\.\d{2})?)")\<close>. Once the sign and the first
  digit are matched, everything that follows in the pattern is optional, so the greedy
  choice at each point is the match: \<open>match_num s\<close> is the token matched at the start of
  \<open>s\<close>, if any. A minus sign is part of the token only in front of a digit.
\<close>

fun num_groups :: "string \<Rightarrow> string" where
  "num_groups (c # d1 # d2 # d3 # r) =
     (if c = CHR '','' \<and> is_digit d1 \<and> is_digit d2 \<and> is_digit d3
      then c # d1 # d2 # d3 # num_groups r else [])"
| "num_groups r = []"

definition num_fraction :: "string \<Rightarrow> string" where
  "num_fraction r =
     (case r of
        c # d1 # d2 # _ \<Rightarrow> if c = CHR ''.'' \<and> is_digit d1 \<and> is_digit d2 then [c, d1, d2] else []
      | _ \<Rightarrow> [])"

definition num_unsigned :: "string \<Rightarrow> string option" where
  "num_unsigned s =
     (let ds = takeWhile is_digit (take 3 s) in
      if ds = [] then None
      else let gs = num_groups (drop (length ds) s);
               fr = num_fraction (drop (length ds + length gs) s)
           in Some (ds @ gs @ fr))"

definition match_num :: "string \<Rightarrow> string option" where
  "match_num s =
     (case s of
        [] \<Rightarrow> None
      | c # r \<Rightarrow> if c = CHR ''-'' then map_option (Cons c) (num_unsigned r) else num_unsigned s)"

text \<open>
  \<^verbatim>\<open>_NUM_RE.findall(line)\<close>: the tokens from the left, without overlap. A token has at least
  one character, so the scan resumes \<open>length tok - 1\<close> characters after the first one.
\<close>

fun find_nums :: "string \<Rightarrow> string list" where
  "find_nums [] = []"
| "find_nums (c # cs) =
     (case match_num (c # cs) of
        Some tok \<Rightarrow> tok # find_nums (drop (length tok - 1) cs)
      | None \<Rightarrow> find_nums cs)"

text \<open>
  Amounts. A Python \<^verbatim>\<open>float\<close> is represented by the decimal number it was read from, a
  \<^typ>\<open>rat\<close>: \<^verbatim>\<open>float(s)\<close> is a function of the value of the numeral \<open>s\<close>, so two amounts
  that are equal here are equal floats. \<open>py_float\<close> is \<^verbatim>\<open>float\<close> on the strings its callers
  pass, which consist of digits, \<^verbatim>\<open>.\<close> and \<^verbatim>\<open>-\<close> only: an optional minus sign, digits, and
  optionally a point and digits, with at least one digit; on anything else of that
  alphabet \<^verbatim>\<open>float\<close> raises \<^verbatim>\<open>ValueError\<close>, which is \<open>None\<close>.
\<close>

definition digit_val :: "char \<Rightarrow> int" where
  "digit_val c =
     (case map_of (zip ''0123456789'' [0, 1, 2, 3, 4, 5, 6, 7, 8, 9]) c of
        Some d \<Rightarrow> d | None \<Rightarrow> 0)"

definition int_of_digits :: "string \<Rightarrow> int" where
  "int_of_digits ds = foldl (\<lambda>n c. 10 * n + digit_val c) 0 ds"

definition unsigned_float :: "string \<Rightarrow> rat option" where
  "unsigned_float s =
     (let ip = takeWhile is_digit s in
      case dropWhile is_digit s of
        [] \<Rightarrow> if ip = [] then None else Some (of_int (int_of_digits ip))
      | c # fp \<Rightarrow>
          if c = CHR ''.'' \<and> list_all is_digit fp \<and> (ip \<noteq> [] \<or> fp \<noteq> [])
          then Some (of_int (int_of_digits ip) + of_int (int_of_digits fp) / 10 ^ length fp)
          else None)"

definition py_float :: "string \<Rightarrow> rat option" where
  "py_float s =
     (case s of
        [] \<Rightarrow> None
      | c # r \<Rightarrow> if c = CHR ''-'' then map_option uminus (unsigned_float r) else unsigned_float s)"

text \<open>\<open>no_digit s\<close>: the pattern \<^verbatim>\<open>\d\<close> matches nowhere in \<open>s\<close>.\<close>

definition no_digit :: "string \<Rightarrow> bool" where
  "no_digit s \<longleftrightarrow> list_all (\<lambda>c. \<not> is_digit c) s"

text \<open>
  \<^verbatim>\<open>line_to_category_and_numbers\<close>. The result is the triple of the source, each
  component \<open>None\<close> or a value. The characters that the final \<^verbatim>\<open>strip\<close> removes are the
  colon, the hyphen, the space and the en and em dashes: in ASCII, \<^verbatim>\<open>":- "\<close>.
\<close>

definition line_head :: "string \<Rightarrow> string \<Rightarrow> string \<Rightarrow> string" where
  "line_head line n2 n1 =
     (let tail = n2 @ '' '' @ n1 in
      if endswith line tail then rstrip (take (length line - length tail) line)
      else let tmp = rstrip (rsplit1_head n1 line) in rstrip (rsplit1_head n2 tmp))"

definition line_to_category_and_numbers ::
    "string \<Rightarrow> string option \<times> rat option \<times> rat option" where
  "line_to_category_and_numbers line0 =
     (let line = strip line0 in
      if line = [] then (None, None, None)
      else let nums = find_nums line in
      if length nums < 2 then (None, None, None)
      else let n2 = nums ! (length nums - 2); n1 = nums ! (length nums - 1) in
      case py_float (replace '','' [] n2) of
        None \<Rightarrow> (None, None, None)
      | Some cur_val \<Rightarrow>
      (case py_float (replace '','' [] n1) of
        None \<Rightarrow> (None, None, None)
      | Some ytd_val \<Rightarrow>
         let head = line_head line n2 n1 in
         if \<not> list_ex is_alpha head then (None, None, None)
         else let head = strip_chars '':- '' (collapse_ws head)
              in (Some (normalize_category head), Some cur_val, Some ytd_val)))"

section \<open>Provider names\<close>

text \<open>
  \<^verbatim>\<open>s.split(sep)\<close> for a separator of one character, which is what every call of the
  source passes (\<^verbatim>\<open>" "\<close>, \<^verbatim>\<open>"="\<close>, \<^verbatim>\<open>"\f"\<close>): the result always has at least one element,
  and \<^verbatim>\<open>"".split(sep)\<close> is \<^verbatim>\<open>[""]\<close>.
\<close>

fun py_split :: "char \<Rightarrow> string \<Rightarrow> string list" where
  "py_split sep [] = [[]]"
| "py_split sep (c # cs) =
     (if c = sep then [] # py_split sep cs
      else (case py_split sep cs of [] \<Rightarrow> [[c]] | r # rs \<Rightarrow> (c # r) # rs))"

fun join :: "string \<Rightarrow> string list \<Rightarrow> string" where
  "join sep [] = []"
| "join sep [x] = x"
| "join sep (x # y # r) = x @ sep @ join sep (y # r)"

text \<open>
  \<^verbatim>\<open>_WORD_RE = ^[A-Za-z][A-Za-z\-']*$\<close> and \<^verbatim>\<open>_ONLY_SC_RE = ^[scSC]{2,}$\<close>, matched against
  tokens that contain no line break (the apostrophe is \<open>CHR 0x27\<close>).
\<close>

definition word_re :: "string \<Rightarrow> bool" where
  "word_re tok =
     (case tok of
        [] \<Rightarrow> False
      | c # r \<Rightarrow> is_alpha c \<and> list_all (\<lambda>x. is_alpha x \<or> x = CHR ''-'' \<or> x = CHR 0x27) r)"

definition only_sc_re :: "string \<Rightarrow> bool" where
  "only_sc_re tok \<longleftrightarrow> 2 \<le> length tok \<and> list_all (\<lambda>x. x \<in> set ''scSC'') tok"

text \<open>
  \<^verbatim>\<open>while len(tokens) >= 2 and len(tokens[-1]) == 1: tokens.pop()\<close>, on the reversed list.
\<close>

fun pop_single_rev :: "string list \<Rightarrow> string list" where
  "pop_single_rev (t # u # r) = (if length t = 1 then pop_single_rev (u # r) else t # u # r)"
| "pop_single_rev r = r"

definition drop_trailing_single :: "string list \<Rightarrow> string list" where
  "drop_trailing_single tokens = rev (pop_single_rev (rev tokens))"

text \<open>
  \<^verbatim>\<open>str.title()\<close>: a cased character is put in upper case when the character before it is
  not cased, and in lower case otherwise.
\<close>

fun title_from :: "bool \<Rightarrow> string \<Rightarrow> string" where
  "title_from prev [] = []"
| "title_from prev (c # cs) =
     (if is_lower c then (if prev then c else upper_char c) # title_from True cs
      else if is_upper c then (if prev then lower_char c else c) # title_from True cs
      else c # title_from False cs)"

definition title :: "string \<Rightarrow> string" where
  "title s = title_from False s"

definition fix_case :: "string \<Rightarrow> string" where
  "fix_case t =
     (if 3 \<le> length t \<and> map lower_char (take 2 t) = ''mc'' then ''Mc'' @ title (drop 2 t)
      else title t)"

definition clean_provider_name_raw :: "string \<Rightarrow> string" where
  "clean_provider_name_raw cand =
     (let clean = map (\<lambda>c. if is_alpha c \<or> is_space c \<or> c = CHR ''-'' \<or> c = CHR 0x27
                             then c else CHR '' '') cand;
          clean = normalize_spaces clean
      in if clean = [] then []
         else let tokens = filter (\<lambda>tok. word_re tok \<and> \<not> only_sc_re tok)
                             (py_split CHR '' '' clean)
         in if length tokens < 2 then []
            else join '' '' (map fix_case (drop_trailing_single (take 4 tokens))))"

section \<open>The character shift of the text layer\<close>

text \<open>
  \<^verbatim>\<open>decode_caesar_shift(text, shift=29, low=33, high=94)\<close>. \<^verbatim>\<open>main\<close> calls it with
  \<^verbatim>\<open>shift=29, low=19, high=94\<close>; with either range the shifted code is at most 123.
\<close>

definition decode_caesar_shift :: "nat \<Rightarrow> nat \<Rightarrow> nat \<Rightarrow> string \<Rightarrow> string" where
  "decode_caesar_shift shift low high text =
     map (\<lambda>ch. let code = of_char ch in
                if low \<le> code \<and> code \<le> high then char_of (code + shift) else ch) text"

section \<open>The entry point\<close>

text \<open>
  The control flow of \<^verbatim>\<open>main\<close> up to the last \<^verbatim>\<open>sys.exit\<close>. The file system and the
  external tools are inputs: whether \<^verbatim>\<open>in_path\<close> exists, the text that
  \<^verbatim>\<open>read_text_from_input\<close> returns and the text that \<^verbatim>\<open>pdftotext\<close> writes. The result is
  the argument of \<^verbatim>\<open>sys.exit\<close>, or \<open>None\<close> when \<^verbatim>\<open>main\<close> goes on to parse and export (it
  has no other \<^verbatim>\<open>sys.exit\<close>, and returns with status 0 when the export succeeds).
\<close>

datatype text_source = Ocr | Poppler_decode

record main_args =
  path_exists :: bool
  hybrid :: bool
  source :: text_source
  ocr_text :: string
  poppler_text :: string

definition form_feed :: char where
  "form_feed = CHR 0x0C"

definition main_exit :: "main_args \<Rightarrow> nat option" where
  "main_exit args =
     (if \<not> path_exists args then Some 1
      else if hybrid args then
        (let decoded_text = decode_caesar_shift 29 19 94 (poppler_text args);
             pages_ocr = py_split form_feed (ocr_text args);
             pages_dec = py_split form_feed decoded_text
         in if pages_ocr = [] \<or> pages_dec = [] then Some 2 else None)
      else
        (let text = (case source args of
                       Poppler_decode \<Rightarrow> decode_caesar_shift 29 19 94 (poppler_text args)
                     | Ocr \<Rightarrow> ocr_text args);
             pages = py_split form_feed text
         in if pages = [] then Some 2 else None))"

section \<open>Printing amounts\<close>

text \<open>
  \<^verbatim>\<open>f"{x:.2f}"\<close> and \<^verbatim>\<open>f"{x:,.2f}"\<close>: the sign, the integer part (with a comma between
  groups of three digits in the second form), a point and two decimals. The amounts that
  the parser reads are multiples of 0.01, and are printed exactly; any other value is
  rounded to the nearest hundredth (half to even).
\<close>

definition round_half_even :: "rat \<Rightarrow> int" where
  "round_half_even r =
     (let f = \<lfloor>r\<rfloor>; d = r - of_int f in
      if d < 1 / 2 then f else if 1 / 2 < d then f + 1 else if even f then f else f + 1)"

definition digit_char :: "int \<Rightarrow> char" where
  "digit_char d = ''0123456789'' ! nat d"

function dec_digits :: "int \<Rightarrow> string" where
  "dec_digits n = (if n < 10 then [digit_char n] else dec_digits (n div 10) @ [digit_char (n mod 10)])"
  by pat_completeness auto
termination
  by (relation "measure nat") auto

declare dec_digits.simps [simp del]

function group_thousands :: "string \<Rightarrow> string" where
  "group_thousands ds =
     (if length ds \<le> 3 then ds
      else group_thousands (take (length ds - 3) ds) @ CHR '','' # drop (length ds - 3) ds)"
  by pat_completeness auto
termination
  by (relation "measure length") auto

declare group_thousands.simps [simp del]

text \<open>
  \<open>is_groups G\<close>: \<open>G\<close> is a sequence of groups of a comma and three digits, as
  \<open>group_thousands\<close> appends them and as \<^verbatim>\<open>(?:,\d{3})*\<close> matches them.
\<close>

fun is_groups :: "string \<Rightarrow> bool" where
  "is_groups [] = True"
| "is_groups (c # d1 # d2 # d3 # r) =
     (c = CHR '','' \<and> is_digit d1 \<and> is_digit d2 \<and> is_digit d3 \<and> is_groups r)"
| "is_groups r = False"

definition fmt_parts :: "rat \<Rightarrow> string \<times> string \<times> string" where
  "fmt_parts x =
     (let c = \<bar>round_half_even (x * 100)\<bar> in
      (if x < 0 then ''-'' else [], dec_digits (c div 100),
       [CHR ''.'', digit_char (c mod 100 div 10), digit_char (c mod 10)]))"

definition fmt_2f :: "rat \<Rightarrow> string" where
  "fmt_2f x = (let (sg, ip, fp) = fmt_parts x in sg @ ip @ fp)"

definition fmt_comma_2f :: "rat \<Rightarrow> string" where
  "fmt_comma_2f x = (let (sg, ip, fp) = fmt_parts x in sg @ group_thousands ip @ fp)"

section \<open>Provider totals\<close>

text \<open>
  A provider entry is the dictionary that \<^verbatim>\<open>main\<close> builds; \<^verbatim>\<open>p.get(key)\<close> is \<open>None\<close> for
  a key that is absent. The amounts are of any type with \<^verbatim>\<open>0\<close> and \<^verbatim>\<open>+\<close>, and
  \<^verbatim>\<open>sum(...)\<close> adds from the left starting at 0, so nothing here depends on how floats
  add or on how \<^verbatim>\<open>f"{x:.2f}"\<close> prints them (\<open>fmt\<close>).
\<close>

record 'a provider_entry =
  pe_name :: string
  pe_rows :: "(string \<times> 'a \<times> 'a) list"
  pe_total_cur :: "'a option"
  pe_total_ytd :: "'a option"
  pe_id :: "string option"

definition py_sum :: "'a::{zero,plus} list \<Rightarrow> 'a" where
  "py_sum xs = foldl (+) 0 xs"

definition is_total_claims :: "string \<Rightarrow> bool" where
  "is_total_claims cat \<longleftrightarrow> py_in ''TOTAL CLAIMS PAYABLE'' (upper cat)"

text \<open>The loop of \<^verbatim>\<open>main\<close> that looks for the total row and breaks at the first one.\<close>

fun find_total_claims :: "(string \<times> 'a \<times> 'a) list \<Rightarrow> ('a \<times> 'a) option" where
  "find_total_claims [] = None"
| "find_total_claims ((cat, cur, ytd) # rows) =
     (if is_total_claims cat then Some (cur, ytd) else find_total_claims rows)"

definition entry_totals :: "(string \<times> 'a::{zero,plus} \<times> 'a) list \<Rightarrow> 'a \<times> 'a" where
  "entry_totals rows =
     (case find_total_claims rows of
        Some t \<Rightarrow> t
      | None \<Rightarrow> (py_sum (map (\<lambda>r. fst (snd r)) rows), py_sum (map (\<lambda>r. snd (snd r)) rows)))"

text \<open>
  The entry of a provider with the given name, id and rows, as both branches of \<^verbatim>\<open>main\<close>
  build it (the branch without \<^verbatim>\<open>--hybrid\<close> sets no id).
\<close>

definition make_entry ::
    "string \<Rightarrow> string option \<Rightarrow> (string \<times> 'a::{zero,plus} \<times> 'a) list \<Rightarrow> 'a provider_entry" where
  "make_entry name provider_id rows =
     (let (total_cur, total_ytd) = entry_totals rows in
      \<lparr>pe_name = name, pe_rows = rows, pe_total_cur = Some total_cur,
       pe_total_ytd = Some total_ytd, pe_id = provider_id\<rparr>)"

definition META_TOKENS :: "string list" where
  "META_TOKENS = [''REPORT'', ''RUN DATE'', ''PAGE:'', ''GROUP #'', ''REMITTANCE'',
                  ''FOR PERIOD'', ''OHIP PAYMENT SUMMARY'']"

definition is_meta :: "string \<Rightarrow> bool" where
  "is_meta cat \<longleftrightarrow> list_ex (\<lambda>tok. py_in tok (upper cat)) META_TOKENS"

text \<open>
  \<^verbatim>\<open>write_provider_csvs_from_entries\<close>: the rows written to \<^verbatim>\<open>provider_categories.csv\<close> and
  to \<^verbatim>\<open>provider_totals.csv\<close>, headers first.
\<close>

definition or_empty :: "string option \<Rightarrow> string" where
  "or_empty x = (case x of Some s \<Rightarrow> s | None \<Rightarrow> [])"

definition written_totals :: "'a::{zero,plus} provider_entry \<Rightarrow> 'a \<times> 'a" where
  "written_totals p =
     (case (pe_total_cur p, pe_total_ytd p) of
        (Some total_cur, Some total_ytd) \<Rightarrow> (total_cur, total_ytd)
      | _ \<Rightarrow> (py_sum (map (\<lambda>r. fst (snd r)) (pe_rows p)),
              py_sum (map (\<lambda>r. snd (snd r)) (pe_rows p))))"

definition totals_csv_row :: "('a::{zero,plus} \<Rightarrow> string) \<Rightarrow> 'a provider_entry \<Rightarrow> string list" where
  "totals_csv_row fmt p =
     (let (total_cur, total_ytd) = written_totals p in
      [pe_name p, or_empty (pe_id p), fmt total_cur, fmt total_ytd])"

definition provider_totals_csv ::
    "('a::{zero,plus} \<Rightarrow> string) \<Rightarrow> 'a provider_entry list \<Rightarrow> string list list" where
  "provider_totals_csv fmt provider_entries =
     [''provider'', ''provider_id'', ''current_month_total_claims_payable'',
      ''ytd_total_claims_payable''] # map (totals_csv_row fmt) provider_entries"

definition provider_categories_csv ::
    "('a::{zero,plus} \<Rightarrow> string) \<Rightarrow> 'a provider_entry list \<Rightarrow> string list list" where
  "provider_categories_csv fmt provider_entries =
     [''provider'', ''provider_id'', ''category'', ''current_month'', ''year_to_date''] #
     concat (map (\<lambda>p. map (\<lambda>(cat, cur, ytd). [pe_name p, or_empty (pe_id p), cat, fmt cur, fmt ytd])
                          (filter (\<lambda>(cat, cur, ytd). \<not> is_meta cat) (pe_rows p)))
                 provider_entries)"

text \<open>
  Two providers for the examples: the first has a subtotal row before its total row, the
  second has no total row.
\<close>

definition example_total_rows :: "(string \<times> rat \<times> rat) list" where
  "example_total_rows =
     [(''NETWORK BASE RATE PAYMENT'', 100, 200), (''SUBTOTAL CLAIMS PAYABLE'', 1, 2),
      (''TOTAL CLAIMS PAYABLE'', 150, 250)]"

definition example_providers ::
    "(string \<times> string option \<times> (string \<times> rat \<times> rat) list) list" where
  "example_providers =
     [(''Jane Doe'', None, example_total_rows),
      (''John Roe'', Some ''12345'',
       [(''NETWORK BASE RATE PAYMENT'', 100, 200), (''ACCESS BONUS PAYMENT'', 150, 250)])]"

section \<open>Group sections of the decoded text\<close>

text \<open>
  \<^verbatim>\<open>str.splitlines()\<close>: in ASCII the line boundaries are LF, VT, FF, CR (CR LF counts as
  one), FS, GS and RS. A final line boundary opens no further line.
\<close>

definition is_linebreak :: "char \<Rightarrow> bool" where
  "is_linebreak c \<longleftrightarrow> c \<in> {CHR 0x0A, CHR 0x0B, CHR 0x0C, CHR 0x0D, CHR 0x1C, CHR 0x1D, CHR 0x1E}"

fun splitlines_from :: "string \<Rightarrow> string \<Rightarrow> string list" where
  "splitlines_from acc [] = (if acc = [] then [] else [acc])"
| "splitlines_from acc [c] = (if is_linebreak c then [acc] else [acc @ [c]])"
| "splitlines_from acc (c # d # cs) =
     (if c = CHR 0x0D \<and> d = CHR 0x0A then acc # splitlines_from [] cs
      else if is_linebreak c then acc # splitlines_from [] (d # cs)
      else splitlines_from (acc @ [c]) (d # cs))"

definition splitlines :: "string \<Rightarrow> string list" where
  "splitlines s = splitlines_from [] s"

text \<open>\<^verbatim>\<open>re.sub(r"[\x00-\x08\x0b-\x0c\x0e-\x1f]", " ", ln)\<close>.\<close>

definition is_ctrl :: "char \<Rightarrow> bool" where
  "is_ctrl c \<longleftrightarrow> (let n = (of_char c :: nat) in n \<le> 8 \<or> n = 11 \<or> n = 12 \<or> (14 \<le> n \<and> n \<le> 31))"

definition ctrl_to_space :: "string \<Rightarrow> string" where
  "ctrl_to_space s = map (\<lambda>c. if is_ctrl c then CHR '' '' else c) s"

text \<open>
  The two patterns of \<^verbatim>\<open>_decoded_num_to_float\<close>, under \<^verbatim>\<open>re.fullmatch\<close>:
  \<^verbatim>\<open>(-?\d+(?:\s\d{3})+)\s(\d{2})\<close> and \<^verbatim>\<open>(-?\d+)\s+(\d{2})\<close>. A run of digits is followed by
  white space or by the end in both, so every \<^verbatim>\<open>\d+\<close> is a maximal run of digits. Each
  returns the integer part (white space removed) and the two decimals.
\<close>

definition split_sign :: "string \<Rightarrow> string \<times> string" where
  "split_sign s = (case s of c # r \<Rightarrow> if c = CHR ''-'' then ([c], r) else ([], s) | [] \<Rightarrow> ([], []))"

function ws_digit_groups :: "string \<Rightarrow> string list option" where
  "ws_digit_groups [] = Some []"
| "ws_digit_groups (c # cs) =
     (if is_space c \<and> takeWhile is_digit cs \<noteq> []
      then map_option (Cons (takeWhile is_digit cs)) (ws_digit_groups (dropWhile is_digit cs))
      else None)"
  by pat_completeness auto
termination
  by (relation "measure length") (auto simp: le_imp_less_Suc length_dropWhile_le)

definition match_grouped :: "string \<Rightarrow> (string \<times> string) option" where
  "match_grouped s =
     (let (sg, r) = split_sign s; d1 = takeWhile is_digit r in
      if d1 = [] then None
      else (case ws_digit_groups (dropWhile is_digit r) of
              None \<Rightarrow> None
            | Some gs \<Rightarrow>
                if 2 \<le> length gs \<and> list_all (\<lambda>g. length g = 3) (butlast gs) \<and> length (last gs) = 2
                then Some (sg @ d1 @ concat (butlast gs), last gs) else None))"

definition match_spaced :: "string \<Rightarrow> (string \<times> string) option" where
  "match_spaced s =
     (let (sg, r) = split_sign s; d1 = takeWhile is_digit r; r1 = dropWhile is_digit r;
          r2 = dropWhile is_space r1
      in if d1 \<noteq> [] \<and> takeWhile is_space r1 \<noteq> [] \<and> length r2 = 2 \<and> list_all is_digit r2
         then Some (sg @ d1, r2) else None)"

definition decimal_of_parts :: "(string \<times> string) option \<Rightarrow> rat option" where
  "decimal_of_parts m = (case m of None \<Rightarrow> None | Some (ip, fp) \<Rightarrow> py_float (ip @ ''.'' @ fp))"

definition decoded_num_to_float :: "string \<Rightarrow> rat option" where
  "decoded_num_to_float token =
     (if token = [] then None
      else let orig = replace [CHR 0x10] ''-'' (replace [CHR 0x11] ''.'' (replace [CHR 0x0F] '','' token));
               orig_trim = strip orig;
               grouped = (if CHR ''.'' \<in> set orig_trim then None
                          else decimal_of_parts (match_grouped orig_trim));
               spaced = (if CHR ''.'' \<in> set orig_trim then None
                         else decimal_of_parts (match_spaced orig_trim))
      in if grouped \<noteq> None then grouped
         else if spaced \<noteq> None then spaced
         else let s = replace '' '' [] (replace '','' [] orig);
                  s = filter (\<lambda>c. is_digit c \<or> c = CHR ''.'' \<or> c = CHR ''-'') s
              in if s \<in> {[], ''-'', ''.'', ''-.''} then None else py_float s)"

text \<open>
  \<^verbatim>\<open>_iter_group_sections_from_decoded\<close>. The generator keeps \<^verbatim>\<open>payment_type\<close> and
  \<^verbatim>\<open>expect_matrix\<close> from line to line and from page to page; \<open>group_step\<close> is one turn of
  its inner loop, returning the new state and the row it yields, if any.
\<close>

record section_state =
  payment_type :: "string option"
  expect_matrix :: bool

type_synonym section_row = "string \<times> string \<times> rat \<times> rat"

definition group_step :: "section_state \<Rightarrow> string \<Rightarrow> section_state \<times> section_row list" where
  "group_step st raw =
     (let up = upper raw;
          has_matrix_header = (py_in ''CURRENT MONTH'' up \<and> py_in ''YEAR TO DATE'' up)
      in if py_in ''GROUP PAYMENTS TO PROVIDER'' up then
           (\<lparr>payment_type = None, expect_matrix = False\<rparr>, [])
         else if py_in ''GROUP PAYMENTS ALL PROVIDERS'' up then
           (\<lparr>payment_type = Some ''GROUP PAYMENTS ALL PROVIDERS'', expect_matrix = False\<rparr>, [])
         else if py_in ''SUMMARY'' up \<and> py_in ''ALL PROVIDERS'' up then
           (\<lparr>payment_type = Some ''SUMMARY ALL PROVIDERS'', expect_matrix = False\<rparr>, [])
         else if py_in ''GROUP PAYMENTS'' up \<and> \<not> py_in ''EXCEPTION'' up then
           (\<lparr>payment_type = Some ''GROUP PAYMENTS'',
             expect_matrix = (has_matrix_header \<or> expect_matrix st)\<rparr>, [])
         else if py_in ''EXCEPTION PAYMENTS'' up then
           (\<lparr>payment_type = Some ''EXCEPTION PAYMENTS'',
             expect_matrix = (has_matrix_header \<or> expect_matrix st)\<rparr>, [])
         else if payment_type st \<noteq> None \<and> has_matrix_header then
           (st\<lparr>expect_matrix := True\<rparr>, [])
         else (case payment_type st of
                 None \<Rightarrow> (st, [])
               | Some ptype \<Rightarrow>
           if \<not> expect_matrix st then (st, [])
           else if \<not> py_in ''='' raw then (st, [])
           else let parts = map strip (py_split CHR ''='' raw) in
           if length parts < 3 then (st, [])
           else let label = normalize_category (parts ! 0) in
           if py_in ''TOTAL'' (upper label) then (st, [])
           else (case (decoded_num_to_float (parts ! (length parts - 2)),
                       decoded_num_to_float (parts ! (length parts - 1))) of
                   (Some cur, Some ytd) \<Rightarrow> (st, [(ptype, label, cur, ytd)])
                 | _ \<Rightarrow> (st, []))))"

fun group_lines :: "section_state \<Rightarrow> string list \<Rightarrow> section_row list" where
  "group_lines st [] = []"
| "group_lines st (raw # raws) =
     (let (st', out) = group_step st raw in out @ group_lines st' raws)"

definition iter_group_sections_from_decoded :: "string list \<Rightarrow> section_row list" where
  "iter_group_sections_from_decoded pages_dec =
     group_lines \<lparr>payment_type = None, expect_matrix = False\<rparr>
       (concat (map (\<lambda>pg. map ctrl_to_space (splitlines pg)) pages_dec))"

section \<open>Parsing the pages\<close>

text \<open>
  \<^verbatim>\<open>parse_group_categories\<close> collects the rows of the first two pages in a dictionary, which
  keeps the position of the first insertion of a key and the value of the last.
\<close>

fun dict_set :: "'k \<Rightarrow> 'v \<Rightarrow> ('k \<times> 'v) list \<Rightarrow> ('k \<times> 'v) list" where
  "dict_set k v [] = [(k, v)]"
| "dict_set k v ((k', v') # r) = (if k = k' then (k, v) # r else (k', v') # dict_set k v r)"

definition contains_any :: "string list \<Rightarrow> string \<Rightarrow> bool" where
  "contains_any toks cat \<longleftrightarrow> list_ex (\<lambda>k. py_in k (upper cat)) toks"

definition group_noise_tokens :: "string list" where
  "group_noise_tokens = [''REPORT:'', ''GROUP #'', ''RUN DATE'', ''PAGE:'',
     ''BROOKLIN MEDICAL CENTRE'', ''OHIP PAYMENT SUMMARY'']"

definition provider_noise_tokens :: "string list" where
  "provider_noise_tokens = [''REPORT:'', ''GROUP #'', ''RUN DATE'', ''PAGE:'',
     ''BROOKLIN MEDICAL CENTRE'', ''OHIP PAYMENT SUMMARY'', ''FOR PERIOD'', ''REMITTANCE'']"

definition group_line :: "(string \<times> rat \<times> rat) list \<Rightarrow> string \<Rightarrow> (string \<times> rat \<times> rat) list" where
  "group_line categories raw =
     (case line_to_category_and_numbers raw of
        (Some cat, Some cur, Some ytd) \<Rightarrow>
          if contains_any group_noise_tokens cat then categories
          else dict_set cat (cur, ytd) categories
      | _ \<Rightarrow> categories)"

definition parse_group_categories :: "string list \<Rightarrow> (string \<times> rat \<times> rat) list" where
  "parse_group_categories pages =
     foldl group_line [] (concat (map splitlines (take 2 pages)))"

text \<open>
  \<^verbatim>\<open>extract_provider_name_from_page\<close>: \<open>idx\<close> is the first line that contains
  \<^verbatim>\<open>NETWORK BASE RATE PAYMENT\<close>; without one it is 0 when one of the first ten lines looks
  like text, and -1 otherwise. The name is the last line among the (at most six) lines
  above \<open>idx\<close> that cleans to a non-empty name.
\<close>

fun first_index :: "('a \<Rightarrow> bool) \<Rightarrow> 'a list \<Rightarrow> nat option" where
  "first_index P [] = None"
| "first_index P (x # xs) = (if P x then Some 0 else map_option Suc (first_index P xs))"

definition extract_provider_name_from_page :: "string \<Rightarrow> string" where
  "extract_provider_name_from_page page_text =
     (let lines = splitlines (ctrl_to_space page_text);
          idx = (case first_index (\<lambda>ln. py_in ''NETWORK BASE RATE PAYMENT'' (upper ln)) lines of
                   Some i \<Rightarrow> int i
                 | None \<Rightarrow>
                     if list_ex (\<lambda>ln. list_ex is_alpha (strip ln) \<and> length (strip ln) \<le> 60)
                          (take 10 lines)
                     then 0 else - 1);
          above = drop (nat (max 0 (idx - 6))) (take (nat idx) lines);
          names = filter (\<lambda>n. n \<noteq> []) (map (\<lambda>ln. clean_provider_name_raw (strip ln)) above)
      in if names = [] then ''Unknown Provider'' else last names)"

definition parse_provider_page :: "string \<Rightarrow> string \<times> (string \<times> rat \<times> rat) list" where
  "parse_provider_page page_text =
     (extract_provider_name_from_page page_text,
      concat (map (\<lambda>raw. case line_to_category_and_numbers raw of
                            (Some cat, Some cur, Some ytd) \<Rightarrow>
                              if contains_any provider_noise_tokens cat then [] else [(cat, cur, ytd)]
                          | _ \<Rightarrow> [])
                  (splitlines page_text)))"

text \<open>
  The records that \<^verbatim>\<open>main\<close> builds from the pages without \<^verbatim>\<open>--hybrid\<close>: the group rows
  from the first two pages, one provider entry for each further page.
\<close>

definition parse_pages ::
    "string list \<Rightarrow> (string \<times> rat \<times> rat) list \<times> rat provider_entry list" where
  "parse_pages pages =
     (parse_group_categories pages,
      map (\<lambda>page. let (name, rows) = parse_provider_page page in make_entry name None rows)
          (drop 2 pages))"


section \<open>The readable text\<close>

record metadata =
  period_from :: "string option"
  period_to :: "string option"
  remittance_advice :: "string option"
  run_date :: "string option"
  group_name :: "string option"
  payment_to :: "string option"
  group_no :: "string option"

text \<open>\<^verbatim>\<open>if meta.get(key)\<close>: the field is present and not the empty string.\<close>

definition truthy :: "string option \<Rightarrow> bool" where
  "truthy x \<longleftrightarrow> (case x of Some s \<Rightarrow> s \<noteq> [] | None \<Rightarrow> False)"

definition header_lines :: "metadata \<Rightarrow> string list" where
  "header_lines meta =
     [''OHIP Payment Summary''] @
     (if truthy (period_from meta) \<and> truthy (period_to meta)
      then [''Period: '' @ or_empty (period_from meta) @ '' to '' @ or_empty (period_to meta)] else []) @
     (if truthy (remittance_advice meta)
      then [''Remittance Advice: '' @ or_empty (remittance_advice meta)] else []) @
     (if truthy (run_date meta) then [''Run Date: '' @ or_empty (run_date meta)] else []) @
     (if truthy (group_name meta) \<or> truthy (group_no meta) \<or> truthy (payment_to meta)
      then [''Group: '' @ join '' ''
              ((if truthy (group_name meta) then [or_empty (group_name meta)] else []) @
               (if truthy (group_no meta) then [''#'' @ or_empty (group_no meta)] else []) @
               (if truthy (payment_to meta)
                then [''(Payment to: '' @ or_empty (payment_to meta) @ '')''] else []))]
      else [])"

text \<open>The row line \<^verbatim>\<open>f"- {cat}: {cur:,.2f}; {ytd:,.2f}"\<close>.\<close>

definition row_line :: "string \<Rightarrow> rat \<Rightarrow> rat \<Rightarrow> string" where
  "row_line cat cur ytd = ''- '' @ cat @ '': '' @ fmt_comma_2f cur @ ''; '' @ fmt_comma_2f ytd"

definition id_suffix :: "rat provider_entry \<Rightarrow> string" where
  "id_suffix p = (if truthy (pe_id p) then '' (ID: '' @ or_empty (pe_id p) @ '')'' else [])"

text \<open>
  The index line of a provider. Printing a total that is \<^verbatim>\<open>None\<close> raises \<^verbatim>\<open>TypeError\<close>,
  which is \<open>None\<close> here; the entries that \<^verbatim>\<open>main\<close> builds always have both totals.
\<close>

definition index_line :: "rat provider_entry \<Rightarrow> string option" where
  "index_line p =
     (case (pe_total_cur p, pe_total_ytd p) of
        (Some total_cur, Some total_ytd) \<Rightarrow>
          Some (row_line (pe_name p @ id_suffix p) total_cur total_ytd)
      | _ \<Rightarrow> None)"

definition detail_lines :: "rat provider_entry \<Rightarrow> string list" where
  "detail_lines p =
     (''Provider: '' @ pe_name p @ id_suffix p) #
     map (\<lambda>(cat, cur, ytd). ''  '' @ row_line cat cur ytd)
         (filter (\<lambda>(cat, cur, ytd). \<not> is_meta cat) (pe_rows p)) @ [[]]"

text \<open>
  \<^verbatim>\<open>build_text\<close> of \<^verbatim>\<open>write_combined_readable_text\<close>, the content of
  \<^verbatim>\<open>combined_readable.txt\<close>.
\<close>

definition build_text ::
    "metadata \<Rightarrow> (string \<times> rat \<times> rat) list \<Rightarrow> rat provider_entry list \<Rightarrow> string option" where
  "build_text meta group_rows provider_entries =
     (case those (map index_line provider_entries) of
        None \<Rightarrow> None
      | Some index \<Rightarrow>
          Some (strip (join [CHR 0x0A]
             (header_lines meta @ [[], ''Group Summary (Current Month; Year to Date):''] @
              map (\<lambda>(cat, cur, ytd). row_line cat cur ytd) group_rows @
              [[], ''Providers Index (TOTAL CLAIMS PAYABLE):''] @ index @
              [[], ''Provider Details:''] @ concat (map detail_lines provider_entries)))
            @ [CHR 0x0A]))"

text \<open>
  Reading the text back: every line of it goes through \<^verbatim>\<open>line_to_category_and_numbers\<close>,
  and the lines that give a record are kept.
\<close>

definition reextract :: "string \<Rightarrow> (string \<times> rat \<times> rat) list" where
  "reextract text =
     concat (map (\<lambda>raw. case line_to_category_and_numbers raw of
                           (Some cat, Some cur, Some ytd) \<Rightarrow> [(cat, cur, ytd)]
                         | _ \<Rightarrow> [])
                 (splitlines text))"

definition no_metadata :: metadata where
  "no_metadata = \<lparr>period_from = None, period_to = None, remittance_advice = None,
     run_date = None, group_name = None, payment_to = None, group_no = None\<rparr>"

text \<open>
  Two notions for the round trip. \<open>collapsed s\<close>: the white space of \<open>s\<close> is single
  spaces, which is what \<^verbatim>\<open>re.sub(r"\s+", " ", s)\<close> leaves. \<open>good_label cat\<close>: \<open>cat\<close> is
  a category as \<^verbatim>\<open>line_to_category_and_numbers\<close> returns it.
\<close>

fun collapsed :: "string \<Rightarrow> bool" where
  "collapsed [] = True"
| "collapsed [c] = (\<not> is_space c \<or> c = CHR '' '')"
| "collapsed (c # d # r) = ((\<not> is_space c \<or> (c = CHR '' '' \<and> \<not> is_space d)) \<and> collapsed (d # r))"

definition good_label :: "string \<Rightarrow> bool" where
  "good_label cat \<longleftrightarrow>
     cat \<noteq> [] \<and> collapsed cat \<and> hd cat \<notin> set '':- '' \<and> last cat \<notin> set '':- '' \<and>
     list_ex is_alpha cat \<and> normalize_category cat = cat"

text \<open>
  \<open>sep_char c\<close>: \<open>c\<close> is not a character of a numeric token, so no token of
  \<^verbatim>\<open>_NUM_RE\<close> contains it.
\<close>

definition sep_char :: "char \<Rightarrow> bool" where
  "sep_char c \<longleftrightarrow> \<not> is_digit c \<and> c \<noteq> CHR '','' \<and> c \<noteq> CHR ''.'' \<and> c \<noteq> CHR ''-''"




section \<open>Properties\<close>

lemmas char_class_defs = is_space_def is_digit_def is_upper_def is_lower_def is_alpha_def
  is_word_char_def

subsection \<open>Exit codes of the entry point\<close>

lemma py_split_not_Nil: "py_split sep s \<noteq> []"
  by (induction s) (auto split: list.splits)

lemma main_exit_missing_input: "\<not> path_exists args \<Longrightarrow> main_exit args = Some 1"
  by (simp add: main_exit_def)

text \<open>
  The guard \<^verbatim>\<open>if not pages: ... sys.exit(2)\<close> tests the result of \<^verbatim>\<open>text.split("\f")\<close>, which
  is never the empty list: no run of \<^verbatim>\<open>main\<close> exits with code 2.
\<close>

lemma main_exit_never_2: "main_exit args \<noteq> Some 2"
  by (simp add: main_exit_def Let_def py_split_not_Nil)

text \<open>
  Claim C1 (exit code 1 on a missing input, exit code 2 on empty extracted text). The
  first half holds (\<open>main_exit_missing_input\<close>). The second does not: for an input file
  that exists and whose text is empty, \<^verbatim>\<open>"".split("\f")\<close> is \<^verbatim>\<open>[""]\<close>, the guard is not taken
  and \<^verbatim>\<open>main\<close> goes on to the export instead of exiting with code 2.
\<close>

theorem main_exit_empty_text:
  "main_exit \<lparr>path_exists = True, hybrid = False, source = Ocr, ocr_text = [],
              poppler_text = []\<rparr> = None"
  by (simp add: main_exit_def Let_def)

subsection \<open>Provider name cleaning\<close>

text \<open>
  Claim C3, as stated (the cleaned name of \<^verbatim>\<open>"JOHN   Q.  SC SMITH"\<close> has exactly 2 tokens),
  is false: the result has 3 tokens.
\<close>

theorem clean_provider_name_raw_john_not_2_tokens:
  "length (py_split CHR '' '' (clean_provider_name_raw ''JOHN   Q.  SC SMITH'')) \<noteq> 2"
  by code_simp

text \<open>
  Claim C3, amended: \<^verbatim>\<open>clean_provider_name_raw("JOHN   Q.  SC SMITH")\<close> drops the noise
  token \<^verbatim>\<open>SC\<close> and keeps the initial \<^verbatim>\<open>Q\<close>, which is not the last token: the result is
  \<^verbatim>\<open>"John Q Smith"\<close>, of 3 tokens.
\<close>

theorem clean_provider_name_raw_john:
  "clean_provider_name_raw ''JOHN   Q.  SC SMITH'' = ''John Q Smith''"
  by code_simp

subsection \<open>Decoding twice\<close>

text \<open>
  Every character of the range moves when the decoding is applied twice, whenever the
  shifted codes stay below 256.
\<close>

lemma decode_caesar_shift_twice_moves:
  assumes "low \<le> (of_char c :: nat)" "of_char c \<le> high" "0 < shift" "high + 2 * shift < 256"
  shows "decode_caesar_shift shift low high (decode_caesar_shift shift low high [c]) \<noteq> [c]"
proof -
  have a: "of_char (char_of (of_char c + shift :: nat)) = (of_char c + shift :: nat)"
    using assms by simp
  show ?thesis
  proof (cases "of_char c + shift \<le> high")
    case True
    have "of_char (char_of (of_char c + shift + shift :: nat)) = (of_char c + shift + shift :: nat)"
      using assms True by simp
    then have "of_char (char_of (of_char c + shift + shift :: nat)) \<noteq> (of_char c :: nat)"
      using assms by simp
    then have "char_of (of_char c + shift + shift :: nat) \<noteq> c" by metis
    then show ?thesis using assms True a by (simp add: decode_caesar_shift_def Let_def)
  next
    case False
    have "of_char (char_of (of_char c + shift :: nat)) \<noteq> (of_char c :: nat)"
      using a assms by simp
    then have "char_of (of_char c + shift :: nat) \<noteq> c" by metis
    then show ?thesis using assms False a by (simp add: decode_caesar_shift_def Let_def)
  qed
qed

text \<open>
  Claim C5: the decoding is not an involution. With the default parameters
  (\<^verbatim>\<open>shift=29, low=33, high=94\<close>) some character \<open>c\<close> of the range has
  \<^verbatim>\<open>decode(decode(c)) != c\<close>: the character \<^verbatim>\<open>!\<close> (33) goes to \<^verbatim>\<open>>\<close> (62) and then to \<^verbatim>\<open>[\<close> (91).
\<close>

theorem decode_caesar_shift_not_involution:
  "\<exists>c. 33 \<le> (of_char c :: nat) \<and> (of_char c :: nat) \<le> 94 \<and>
       decode_caesar_shift 29 33 94 (decode_caesar_shift 29 33 94 [c]) \<noteq> [c]"
  by (rule exI [of _ "CHR ''!''"]) code_simp

subsection \<open>The line-to-record heuristic\<close>

text \<open>
  Claim C10: \<^verbatim>\<open>line_to_category_and_numbers\<close> never returns a partial result; the three
  components of its triple are all \<^verbatim>\<open>None\<close> or all values.
\<close>

theorem line_to_category_and_numbers_all_or_nothing:
  "line_to_category_and_numbers line = (None, None, None) \<or>
   (\<exists>cat cur ytd. line_to_category_and_numbers line = (Some cat, Some cur, Some ytd))"
  by (simp add: line_to_category_and_numbers_def Let_def split: option.splits)

subsection \<open>Category normalization\<close>

lemma dropWhile_snoc_not: "\<not> P x \<Longrightarrow> dropWhile P (ys @ [x]) = dropWhile P ys @ [x]"
  by (induction ys) auto

lemma two_sided_head_aux:
  assumes "t = [] \<or> \<not> P (hd t)"
  shows "dropWhile P (rev (dropWhile P (rev t))) = rev (dropWhile P (rev t))"
proof (cases t)
  case Nil
  then show ?thesis by simp
next
  case (Cons x u)
  then have nx: "\<not> P x" using assms by simp
  have "dropWhile P (rev (x # u)) = dropWhile P (rev u) @ [x]"
    using nx by (simp add: dropWhile_snoc_not)
  then show ?thesis using Cons nx by simp
qed

lemma two_sided_head:
  "dropWhile P (rev (dropWhile P (rev (dropWhile P xs)))) = rev (dropWhile P (rev (dropWhile P xs)))"
  by (rule two_sided_head_aux) (metis hd_dropWhile)

lemma strip_chars_idem: "strip_chars cs (strip_chars cs s) = strip_chars cs s"
  unfolding strip_chars_def by (simp add: two_sided_head)

lemma strip_idem: "strip (strip s) = strip s"
  unfolding strip_def lstrip_def rstrip_def by (simp add: two_sided_head)

lemma canon_values_checked:
  "list_all (\<lambda>kv. normalize_category (snd kv) = snd kv) CATEGORY_CANON"
  by code_simp

lemma canon_match_fixed:
  assumes "canon_match s = Some v"
  shows "normalize_category v = v"
proof -
  have "v \<in> snd ` set CATEGORY_CANON"
    using assms by (auto simp: canon_match_def Let_def split: option.splits dest!: map_of_SomeD intro: rev_image_eqI)
  then show ?thesis
    using canon_values_checked by (auto simp: list_all_iff)
qed

lemma normalize_category_unmatched: "canon_match s = None \<Longrightarrow> normalize_category s = strip s"
  by (simp add: normalize_category_def)

text \<open>
  A label without surrounding white space, which is what every caller passes, is
  normalized to a fixed point.
\<close>

lemma normalize_category_idempotent_stripped:
  assumes "strip s = s"
  shows "normalize_category (normalize_category s) = normalize_category s"
proof (cases "canon_match s")
  case None
  then show ?thesis using assms by (simp add: normalize_category_def)
next
  case (Some v)
  then show ?thesis using canon_match_fixed [OF Some] by (simp add: normalize_category_def)
qed

text \<open>
  Claim C9, amended: \<^verbatim>\<open>normalize_category(normalize_category(s)) = normalize_category(s)\<close>
  for every \<open>s\<close> except the labels that have no canonical match while their stripped
  form has one. An output of the canonical table is always a fixed point
  (\<open>canon_match_fixed\<close>); the pass-through output \<^verbatim>\<open>cat_raw.strip()\<close> is one when it has no
  canonical match either.
\<close>

theorem normalize_category_idempotent_unless:
  assumes "\<not> (canon_match s = None \<and> canon_match (strip s) \<noteq> None)"
  shows "normalize_category (normalize_category s) = normalize_category s"
proof (cases "canon_match s")
  case (Some v)
  then show ?thesis using canon_match_fixed [OF Some] by (simp add: normalize_category_def)
next
  case None
  with assms have "canon_match (strip s) = None" by simp
  with None show ?thesis by (simp add: normalize_category_def strip_idem)
qed

theorem normalize_category_idempotent_unless_witness:
  "normalize_category (normalize_category ''  Office visit '') = normalize_category ''  Office visit '' \<and>
   normalize_category (normalize_category ''network base rate payment:'') = ''NETWORK BASE RATE PAYMENT''"
proof -
  have a: "\<not> (canon_match ''  Office visit '' = None \<and> canon_match (strip ''  Office visit '') \<noteq> None)"
    by code_simp
  have b: "\<not> (canon_match ''network base rate payment:'' = None \<and> canon_match (strip ''network base rate payment:'') \<noteq> None)"
    by code_simp
  have c: "normalize_category ''network base rate payment:'' = ''NETWORK BASE RATE PAYMENT''"
    by code_simp
  show ?thesis
    using normalize_category_idempotent_unless [OF a] normalize_category_idempotent_unless [OF b] c
    by simp
qed

text \<open>
  Claim C9, as stated (idempotence for every input), is false. The label
  \<^verbatim>\<open>"\t- ACCESS BONUS PAYMENT"\<close> has no canonical match, because \<^verbatim>\<open>cat.strip(" :-")\<close> stops at
  the tab; it is returned as \<^verbatim>\<open>"- ACCESS BONUS PAYMENT"\<close>, whose normal form is
  \<^verbatim>\<open>"ACCESS BONUS PAYMENT"\<close>.
\<close>

theorem normalize_category_not_idempotent:
  "normalize_category (normalize_category (CHR 0x09 # ''- ACCESS BONUS PAYMENT'')) \<noteq>
   normalize_category (CHR 0x09 # ''- ACCESS BONUS PAYMENT'')"
  by code_simp

text \<open>
  Claim C7: both spellings of \<^verbatim>\<open>BLENDED FEE-FOR-SERVICE PREMIUM\<close> are mapped to the
  canonical one; the bare forms without \<^verbatim>\<open>BLENDED\<close> have no canonical match and come
  back unchanged; and every label without a canonical match (exact or with the hyphens
  replaced by spaces) comes back as the input stripped of surrounding white space.
\<close>

theorem normalize_category_fee_for_service:
  "normalize_category ''BLENDED FEE-FOR-SERVICE PREMIUM'' = ''BLENDED FEE-FOR-SERVICE PREMIUM'' \<and>
   normalize_category ''BLENDED FEE FOR SERVICE PREMIUM'' = ''BLENDED FEE-FOR-SERVICE PREMIUM'' \<and>
   canon_match ''FEE-FOR-SERVICE PREMIUM'' = None \<and>
   normalize_category ''FEE-FOR-SERVICE PREMIUM'' = ''FEE-FOR-SERVICE PREMIUM'' \<and>
   canon_match ''FEE FOR SERVICE PREMIUM'' = None \<and>
   normalize_category ''FEE FOR SERVICE PREMIUM'' = ''FEE FOR SERVICE PREMIUM'' \<and>
   (\<forall>s. canon_match s = None \<longrightarrow> normalize_category s = strip s)"
proof -
  have "normalize_category ''BLENDED FEE-FOR-SERVICE PREMIUM'' = ''BLENDED FEE-FOR-SERVICE PREMIUM''"
    by code_simp
  moreover have "normalize_category ''BLENDED FEE FOR SERVICE PREMIUM'' = ''BLENDED FEE-FOR-SERVICE PREMIUM''"
    by code_simp
  moreover have "canon_match ''FEE-FOR-SERVICE PREMIUM'' = None" by code_simp
  moreover have "normalize_category ''FEE-FOR-SERVICE PREMIUM'' = ''FEE-FOR-SERVICE PREMIUM''"
    by code_simp
  moreover have "canon_match ''FEE FOR SERVICE PREMIUM'' = None" by code_simp
  moreover have "normalize_category ''FEE FOR SERVICE PREMIUM'' = ''FEE FOR SERVICE PREMIUM''"
    by code_simp
  ultimately show ?thesis by (simp add: normalize_category_unmatched)
qed

theorem normalize_category_fee_for_service_witness:
  "canon_match ''  fee for service premium '' = None \<and>
   normalize_category ''  fee for service premium '' = ''fee for service premium''"
proof -
  have a: "canon_match ''  fee for service premium '' = None" by code_simp
  have b: "strip ''  fee for service premium '' = ''fee for service premium''" by code_simp
  from normalize_category_fee_for_service
  have "\<forall>s. canon_match s = None \<longrightarrow> normalize_category s = strip s" by blast
  with a b show ?thesis by simp
qed


subsection \<open>Provider totals\<close>

lemma find_total_claims_None:
  "find_total_claims rows = None \<longleftrightarrow> (\<forall>r \<in> set rows. \<not> is_total_claims (fst r))"
  by (induction rows) (auto split: if_splits)

lemma find_total_claims_Some:
  "find_total_claims rows = Some (c, y) \<Longrightarrow>
     \<exists>pre cat post. rows = pre @ (cat, c, y) # post \<and> is_total_claims cat \<and>
        (\<forall>r \<in> set pre. \<not> is_total_claims (fst r))"
proof (induction rows)
  case Nil
  then show ?case by simp
next
  case (Cons r rows)
  obtain cat cur ytd where r: "r = (cat, cur, ytd)" by (cases r)
  show ?case
  proof (cases "is_total_claims cat")
    case True
    with Cons.prems r have "r = (cat, c, y)" by simp
    with True show ?thesis by (intro exI [of _ "[]"] exI [of _ cat] exI [of _ rows]) simp
  next
    case False
    with Cons.prems r have "find_total_claims rows = Some (c, y)" by simp
    from Cons.IH [OF this] obtain pre cat' post where
      p: "rows = pre @ (cat', c, y) # post" "is_total_claims cat'"
         "\<forall>r \<in> set pre. \<not> is_total_claims (fst r)" by blast
    with False r show ?thesis
      by (intro exI [of _ "r # pre"] exI [of _ cat'] exI [of _ post]) simp
  qed
qed

lemma totals_csv_row_make_entry:
  "totals_csv_row fmt (make_entry name pid rows) =
     [name, or_empty pid, fmt (fst (entry_totals rows)), fmt (snd (entry_totals rows))]"
  by (simp add: totals_csv_row_def make_entry_def written_totals_def split: prod.splits)

lemma provider_totals_csv_nth:
  "i < length provider_entries \<Longrightarrow>
     provider_totals_csv fmt provider_entries ! Suc i = totals_csv_row fmt (provider_entries ! i)"
  by (simp add: provider_totals_csv_def)

text \<open>
  Claim C2, as stated (the written total is the amount of the explicit
  \<^verbatim>\<open>TOTAL CLAIMS PAYABLE\<close> row when there is one, and the sum of all rows otherwise), is
  false. \<^verbatim>\<open>main\<close> takes the first row whose category contains \<^verbatim>\<open>TOTAL CLAIMS PAYABLE\<close>: on
  a provider page with the rows \<^verbatim>\<open>NETWORK BASE RATE PAYMENT 100.00 200.00\<close>,
  \<^verbatim>\<open>SUBTOTAL CLAIMS PAYABLE 1.00 2.00\<close> and \<^verbatim>\<open>TOTAL CLAIMS PAYABLE 150.00 250.00\<close>, the row
  written to \<^verbatim>\<open>provider_totals.csv\<close> has the amounts of the subtotal row, \<^verbatim>\<open>1.00\<close> and
  \<^verbatim>\<open>2.00\<close>: neither those of the explicit row (\<^verbatim>\<open>150.00\<close>, \<^verbatim>\<open>250.00\<close>) nor the sums
  (\<^verbatim>\<open>251.00\<close>, \<^verbatim>\<open>452.00\<close>).
\<close>

theorem provider_totals_csv_not_explicit_row:
  "provider_totals_csv fmt_2f (snd (parse_pages [[], [], ''JANE DOE'' @ [CHR 0x0A] @
      ''NETWORK BASE RATE PAYMENT 100.00 200.00'' @ [CHR 0x0A] @
      ''SUBTOTAL CLAIMS PAYABLE 1.00 2.00'' @ [CHR 0x0A] @
      ''TOTAL CLAIMS PAYABLE 150.00 250.00''])) ! 1 = [''Jane Doe'', [], ''1.00'', ''2.00'']"
  by code_simp

text \<open>
  Claim C2, amended: \<^verbatim>\<open>provider_totals.csv\<close> has a header and one row for each provider
  entry, in order. For the entry that \<^verbatim>\<open>main\<close> builds from a provider's name, id and rows,
  the row is the name, the id (or the empty string) and two printed amounts: the amounts
  of the first row whose category contains \<^verbatim>\<open>TOTAL CLAIMS PAYABLE\<close> (in any letter case)
  when there is such a row, and the sums of the amounts of all rows otherwise.
\<close>

theorem provider_totals_csv_columns:
  fixes fmt :: "'a::{zero,plus} \<Rightarrow> string"
  assumes "i < length ps" "ps ! i = (name, pid, rows)"
  shows "provider_totals_csv fmt (map (\<lambda>(name, pid, rows). make_entry name pid rows) ps) ! 0 =
           [''provider'', ''provider_id'', ''current_month_total_claims_payable'',
            ''ytd_total_claims_payable''] \<and>
         length (provider_totals_csv fmt (map (\<lambda>(name, pid, rows). make_entry name pid rows) ps)) =
           Suc (length ps) \<and>
         (\<exists>cur ytd.
            provider_totals_csv fmt (map (\<lambda>(name, pid, rows). make_entry name pid rows) ps) ! Suc i =
              [name, or_empty pid, fmt cur, fmt ytd] \<and>
            ((\<exists>r \<in> set rows. is_total_claims (fst r)) \<longrightarrow>
               (\<exists>pre cat post. rows = pre @ (cat, cur, ytd) # post \<and> is_total_claims cat \<and>
                  (\<forall>r \<in> set pre. \<not> is_total_claims (fst r)))) \<and>
            ((\<forall>r \<in> set rows. \<not> is_total_claims (fst r)) \<longrightarrow>
               cur = py_sum (map (\<lambda>r. fst (snd r)) rows) \<and>
               ytd = py_sum (map (\<lambda>r. snd (snd r)) rows)))"
proof -
  let ?es = "map (\<lambda>(name, pid, rows). make_entry name pid rows) ps"
  have row: "provider_totals_csv fmt ?es ! Suc i =
      [name, or_empty pid, fmt (fst (entry_totals rows)), fmt (snd (entry_totals rows))]"
    using assms by (simp add: provider_totals_csv_nth totals_csv_row_make_entry)
  have a: "\<exists>pre cat post. rows = pre @ (cat, fst (entry_totals rows), snd (entry_totals rows)) # post \<and>
              is_total_claims cat \<and> (\<forall>r \<in> set pre. \<not> is_total_claims (fst r))"
    if "\<exists>r \<in> set rows. is_total_claims (fst r)"
  proof -
    from that have "find_total_claims rows \<noteq> None" by (simp add: find_total_claims_None)
    then obtain c y where f: "find_total_claims rows = Some (c, y)" by auto
    from find_total_claims_Some [OF f] f show ?thesis by (simp add: entry_totals_def)
  qed
  have b: "fst (entry_totals rows) = py_sum (map (\<lambda>r. fst (snd r)) rows) \<and>
           snd (entry_totals rows) = py_sum (map (\<lambda>r. snd (snd r)) rows)"
    if "\<forall>r \<in> set rows. \<not> is_total_claims (fst r)"
  proof -
    from that have "find_total_claims rows = None" by (simp add: find_total_claims_None)
    then show ?thesis by (simp add: entry_totals_def)
  qed
  have "\<exists>cur ytd.
            provider_totals_csv fmt ?es ! Suc i = [name, or_empty pid, fmt cur, fmt ytd] \<and>
            ((\<exists>r \<in> set rows. is_total_claims (fst r)) \<longrightarrow>
               (\<exists>pre cat post. rows = pre @ (cat, cur, ytd) # post \<and> is_total_claims cat \<and>
                  (\<forall>r \<in> set pre. \<not> is_total_claims (fst r)))) \<and>
            ((\<forall>r \<in> set rows. \<not> is_total_claims (fst r)) \<longrightarrow>
               cur = py_sum (map (\<lambda>r. fst (snd r)) rows) \<and>
               ytd = py_sum (map (\<lambda>r. snd (snd r)) rows))"
    using row a b
    by (intro exI [of _ "fst (entry_totals rows)"] exI [of _ "snd (entry_totals rows)"]) blast
  then show ?thesis by (simp add: provider_totals_csv_def)
qed

theorem provider_totals_csv_columns_witness:
  "(\<exists>cur ytd pre cat post.
      provider_totals_csv fmt_2f
        (map (\<lambda>(name, pid, rows). make_entry name pid rows) example_providers) ! Suc 0 =
        [''Jane Doe'', [], fmt_2f cur, fmt_2f ytd] \<and>
      example_total_rows = pre @ (cat, cur, ytd) # post \<and> is_total_claims cat \<and>
      (\<forall>r \<in> set pre. \<not> is_total_claims (fst r))) \<and>
   provider_totals_csv fmt_2f
     (map (\<lambda>(name, pid, rows). make_entry name pid rows) example_providers) ! Suc 1 =
     [''John Roe'', ''12345'', ''250.00'', ''450.00'']"
proof -
  have l: "0 < length example_providers" "1 < length example_providers"
    "example_providers ! 0 = (''Jane Doe'', None, example_total_rows)"
    "example_providers ! 1 = (''John Roe'', Some ''12345'',
       [(''NETWORK BASE RATE PAYMENT'', 100, 200), (''ACCESS BONUS PAYMENT'', 150, 250)])"
    by (simp_all add: example_providers_def)
  have a: "\<exists>r \<in> set example_total_rows. is_total_claims (fst r)" by code_simp
  have b: "\<forall>r \<in> set [(''NETWORK BASE RATE PAYMENT'', 100 :: rat, 200 :: rat),
                         (''ACCESS BONUS PAYMENT'', 150, 250)]. \<not> is_total_claims (fst r)"
    by code_simp
  have s: "py_sum [100, 150 :: rat] = 250" "py_sum [200, 250 :: rat] = 450"
    by (simp_all add: py_sum_def)
  have f: "fmt_2f 250 = ''250.00''" "fmt_2f 450 = ''450.00''" "or_empty None = []"
    "or_empty (Some ''12345'') = ''12345''" by code_simp+
  from provider_totals_csv_columns [OF l(1) l(3), of fmt_2f] a
  have 1: "\<exists>cur ytd pre cat post.
      provider_totals_csv fmt_2f
        (map (\<lambda>(name, pid, rows). make_entry name pid rows) example_providers) ! Suc 0 =
        [''Jane Doe'', [], fmt_2f cur, fmt_2f ytd] \<and>
      example_total_rows = pre @ (cat, cur, ytd) # post \<and> is_total_claims cat \<and>
      (\<forall>r \<in> set pre. \<not> is_total_claims (fst r))"
    unfolding f(3) by blast
  from provider_totals_csv_columns [OF l(2) l(4), of fmt_2f] b
  have 2: "provider_totals_csv fmt_2f
     (map (\<lambda>(name, pid, rows). make_entry name pid rows) example_providers) ! Suc 1 =
     [''John Roe'', ''12345'', ''250.00'', ''450.00'']"
    using s f by auto
  from 1 2 show ?thesis by blast
qed

subsection \<open>Group sections of the decoded text\<close>

lemma group_step_no_total:
  "r \<in> set (snd (group_step st raw)) \<Longrightarrow> \<not> py_in ''TOTAL'' (upper (fst (snd r)))"
  by (auto simp: group_step_def Let_def split: if_splits option.splits)

lemma group_lines_no_total:
  "r \<in> set (group_lines st raws) \<Longrightarrow> \<not> py_in ''TOTAL'' (upper (fst (snd r)))"
proof (induction raws arbitrary: st)
  case Nil
  then show ?case by simp
next
  case (Cons raw raws)
  obtain st' out where step: "group_step st raw = (st', out)" by (cases "group_step st raw")
  from Cons.prems step have "r \<in> set out \<or> r \<in> set (group_lines st' raws)" by simp
  then show ?case
  proof
    assume "r \<in> set out"
    then show ?thesis using group_step_no_total [of r st raw] step by simp
  next
    assume "r \<in> set (group_lines st' raws)"
    then show ?thesis by (rule Cons.IH)
  qed
qed

text \<open>
  Claim C8: no row that \<^verbatim>\<open>_iter_group_sections_from_decoded\<close> yields has a label containing
  \<^verbatim>\<open>TOTAL\<close> in any letter case (\<^verbatim>\<open>"TOTAL" in label.upper()\<close> is false), for every list of
  pages.
\<close>

theorem iter_group_sections_no_total:
  "\<forall>(ptype, label, cur, ytd) \<in> set (iter_group_sections_from_decoded pages_dec).
     \<not> py_in ''TOTAL'' (upper label)"
  using group_lines_no_total by (fastforce simp: iter_group_sections_from_decoded_def)

text \<open>
  A section of two line items and two subtotal lines: only the line items are yielded.
\<close>

lemma example_group_sections:
  "iter_group_sections_from_decoded
     [''GROUP PAYMENTS'' @ [CHR 0x0A] @ ''CURRENT MONTH=YEAR TO DATE'' @ [CHR 0x0A] @
      ''NETWORK BASE RATE PAYMENT=1,234.56=2,345.67'' @ [CHR 0x0A] @
      ''GROUP PAYMENTS TOTAL=1,234.56=2,345.67'' @ [CHR 0x0A] @
      ''Subtotal=10.00=20.00'' @ [CHR 0x0A] @ ''Office visits=38 370 25=40 000 00'']
   = [(''GROUP PAYMENTS'', ''NETWORK BASE RATE PAYMENT'', 123456 / 100, 234567 / 100),
      (''GROUP PAYMENTS'', ''Office visits'', 3837025 / 100, 40000)]"
  by code_simp

theorem iter_group_sections_no_total_witness:
  "\<not> py_in ''TOTAL'' (upper ''NETWORK BASE RATE PAYMENT'') \<and>
   \<not> py_in ''TOTAL'' (upper ''Office visits'')"
  using iter_group_sections_no_total
    [of "[''GROUP PAYMENTS'' @ [CHR 0x0A] @ ''CURRENT MONTH=YEAR TO DATE'' @ [CHR 0x0A] @
      ''NETWORK BASE RATE PAYMENT=1,234.56=2,345.67'' @ [CHR 0x0A] @
      ''GROUP PAYMENTS TOTAL=1,234.56=2,345.67'' @ [CHR 0x0A] @
      ''Subtotal=10.00=20.00'' @ [CHR 0x0A] @ ''Office visits=38 370 25=40 000 00'']"]
  unfolding example_group_sections by simp

subsection \<open>Numeric tokens and their values\<close>

lemma replace_single_empty: "replace [c] [] s = filter (\<lambda>x. x \<noteq> c) s"
  by (induction s) auto

lemma digit_not_punct:
  "is_digit c \<Longrightarrow> c \<noteq> CHR '','' \<and> c \<noteq> CHR ''.'' \<and> c \<noteq> CHR ''-'' \<and> c \<noteq> CHR '' '' \<and> \<not> is_space c \<and> \<not> is_alpha c"
  by (auto simp: char_class_defs)

lemma num_groups_prefix: "prefix (num_groups r) r"
  by (induction r rule: num_groups.induct) auto

lemma num_groups_filter: "list_all is_digit (filter (\<lambda>x. x \<noteq> CHR '','') (num_groups r))"
  by (induction r rule: num_groups.induct) (auto simp: digit_not_punct)

lemma num_groups_last: "num_groups r \<noteq> [] \<Longrightarrow> is_digit (last (num_groups r))"
  by (induction r rule: num_groups.induct) (auto split: if_splits)

lemma num_fraction_cases:
  "num_fraction r = [] \<or> (\<exists>d1 d2. num_fraction r = [CHR ''.'', d1, d2] \<and> is_digit d1 \<and> is_digit d2)"
  by (auto simp: num_fraction_def split: list.splits)

lemma num_fraction_prefix: "prefix (num_fraction r) r"
  by (auto simp: num_fraction_def split: list.splits)

lemma takeWhile_all_then:
  "list_all P ds \<Longrightarrow> (r = [] \<or> \<not> P (hd r)) \<Longrightarrow> takeWhile P (ds @ r) = ds \<and> dropWhile P (ds @ r) = r"
  by (induction ds) (cases r; auto)+


text \<open>The shape of a token.\<close>

lemma num_unsigned_shape:
  assumes "num_unsigned s = Some tok"
  shows "\<exists>ds gs fr. tok = ds @ gs @ fr \<and> ds \<noteq> [] \<and> list_all is_digit ds \<and>
           list_all is_digit (filter (\<lambda>x. x \<noteq> CHR '','') gs) \<and> (gs = [] \<or> is_digit (last gs)) \<and>
           (fr = [] \<or> (\<exists>d1 d2. fr = [CHR ''.'', d1, d2] \<and> is_digit d1 \<and> is_digit d2))"
proof -
  let ?ds = "takeWhile is_digit (take 3 s)"
  let ?gs = "num_groups (drop (length ?ds) s)"
  let ?fr = "num_fraction (drop (length ?ds + length ?gs) s)"
  from assms have ne: "?ds \<noteq> []" and tok: "tok = ?ds @ ?gs @ ?fr"
    by (auto simp: num_unsigned_def Let_def split: if_splits)
  have "list_all is_digit ?ds" by (simp add: list_all_iff) (meson set_takeWhileD)
  then show ?thesis
    using ne tok num_groups_filter [of "drop (length ?ds) s"] num_groups_last [of "drop (length ?ds) s"]
      num_fraction_cases [of "drop (length ?ds + length ?gs) s"]
    by blast
qed

lemma num_unsigned_prefix:
  assumes "num_unsigned s = Some tok"
  shows "prefix tok s"
proof -
  let ?ds = "takeWhile is_digit (take 3 s)"
  let ?gs = "num_groups (drop (length ?ds) s)"
  let ?fr = "num_fraction (drop (length ?ds + length ?gs) s)"
  from assms have tok: "tok = ?ds @ ?gs @ ?fr"
    by (auto simp: num_unsigned_def Let_def split: if_splits)
  have "prefix ?ds (take 3 s)" by (metis prefixI takeWhile_dropWhile_id)
  then have p1: "prefix ?ds s" using take_is_prefix prefix_order.trans by blast
  then obtain r1 where r1: "s = ?ds @ r1" by (auto simp: prefix_def)
  then have d1: "drop (length ?ds) s = r1" by (metis append_eq_conv_conj)
  obtain r2 where r2: "r1 = ?gs @ r2" using num_groups_prefix [of r1] d1 by (auto simp: prefix_def)
  have "drop (length ?ds + length ?gs) s = r2"
    by (metis r1 r2 append_eq_conv_conj append.assoc length_append)
  then obtain r3 where "r2 = ?fr @ r3" using num_fraction_prefix [of r2] by (auto simp: prefix_def)
  then have "s = tok @ r3" using tok r1 r2 by (metis append.assoc)
  then show ?thesis by simp
qed



lemma num_unsigned_first_digit:
  assumes "num_unsigned s = Some tok"
  shows "tok \<noteq> [] \<and> is_digit (hd tok) \<and> is_digit (last tok)"
proof -
  from num_unsigned_shape [OF assms] obtain ds gs fr where
    sh: "tok = ds @ gs @ fr" "ds \<noteq> []" "list_all is_digit ds" "gs = [] \<or> is_digit (last gs)"
        "fr = [] \<or> (\<exists>d1 d2. fr = [CHR ''.'', d1, d2] \<and> is_digit d1 \<and> is_digit d2)"
    by blast
  have "is_digit (hd ds)" "is_digit (last ds)" using sh(2,3) by (auto simp: list_all_iff)
  then show ?thesis using sh by (cases "fr = []"; cases "gs = []"; auto)
qed

lemma match_num_cases:
  assumes "match_num s = Some tok"
  shows "(\<exists>r u. s = CHR ''-'' # r \<and> num_unsigned r = Some u \<and> tok = CHR ''-'' # u) \<or>
         (num_unsigned s = Some tok \<and> (s = [] \<or> hd s \<noteq> CHR ''-''))"
  using assms by (auto simp: match_num_def split: list.splits if_splits)

lemma match_num_prefix: "match_num s = Some tok \<Longrightarrow> prefix tok s"
  using match_num_cases [of s tok] num_unsigned_prefix by fastforce

lemma match_num_nonempty: "match_num s = Some tok \<Longrightarrow> tok \<noteq> [] \<and> is_digit (last tok)"
  using match_num_cases [of s tok] num_unsigned_first_digit by fastforce


lemma find_nums_tokens: "tok \<in> set (find_nums s) \<Longrightarrow> \<exists>t. match_num t = Some tok"
  by (induction s rule: find_nums.induct) (auto split: option.splits)

subsection \<open>The last occurrence of a token\<close>

lemma rfind_le: "rfind sep s = Some i \<Longrightarrow> i \<le> length s"
  by (induction s arbitrary: i) (auto split: option.splits if_splits)

lemma rfind_None: "rfind sep s = None \<Longrightarrow> j \<le> length s \<Longrightarrow> \<not> prefix sep (drop j s)"
proof (induction s arbitrary: j)
  case Nil
  then show ?case by (auto split: if_splits)
next
  case (Cons c cs)
  from Cons.prems(1) have n: "rfind sep cs = None" "\<not> prefix sep (c # cs)"
    by (auto split: option.splits if_splits)
  show ?case
  proof (cases j)
    case 0
    then show ?thesis using n by simp
  next
    case (Suc k)
    then show ?thesis using Cons.IH [OF n(1), of k] Cons.prems(2) by simp
  qed
qed

lemma rfind_Some_last:
  "rfind sep s = Some i \<Longrightarrow> i < j \<Longrightarrow> j \<le> length s \<Longrightarrow> \<not> prefix sep (drop j s)"
proof (induction s arbitrary: i j)
  case Nil
  then show ?case by simp
next
  case (Cons c cs)
  from Cons.prems(2) obtain k where k: "j = Suc k" by (cases j) auto
  show ?case
  proof (cases "rfind sep cs")
    case None
    then show ?thesis using rfind_None [OF None, of k] Cons.prems(3) k by simp
  next
    case (Some i')
    with Cons.prems(1) have "i = Suc i'" by simp
    then show ?thesis using Cons.IH [OF Some, of k] Cons.prems k by simp
  qed
qed

lemma rfind_Some_prefix: "rfind sep s = Some i \<Longrightarrow> prefix sep (drop i s)"
  by (induction s arbitrary: i) (auto split: option.splits if_splits)

lemma rfind_eqI:
  assumes "i \<le> length s" "prefix sep (drop i s)"
    and "\<And>j. i < j \<Longrightarrow> j \<le> length s \<Longrightarrow> \<not> prefix sep (drop j s)"
  shows "rfind sep s = Some i"
proof (cases "rfind sep s")
  case None
  then show ?thesis using rfind_None [OF None assms(1)] assms(2) by simp
next
  case (Some k)
  have "\<not> i < k" using assms(3) [of k] rfind_Some_prefix [OF Some] rfind_le [OF Some] by blast
  moreover have "\<not> k < i" using rfind_Some_last [OF Some _ assms(1)] assms(2) by blast
  ultimately show ?thesis using Some by simp
qed

lemma prefix_drop_nth:
  assumes "prefix sep (drop j s)" "sep \<noteq> []"
  shows "j + length sep \<le> length s \<and> s ! (j + (length sep - 1)) = last sep"
proof -
  from assms(1) obtain r where r: "drop j s = sep @ r" by (auto simp: prefix_def)
  have "length (sep @ r) = length s - j" using r by (metis length_drop)
  moreover have "0 < length sep" using assms(2) by simp
  ultimately have len: "j + length sep \<le> length s" by (simp only: length_append)
  have "s ! (j + (length sep - 1)) = (drop j s) ! (length sep - 1)"
    using len by simp
  also have "\<dots> = last sep" using assms(2) unfolding r by (simp add: nth_append last_conv_nth)
  finally show ?thesis using len by simp
qed

lemma no_occurrence_after:
  assumes "sep \<noteq> []" "is_digit (last sep)" "no_digit post" "length X < j"
  shows "\<not> prefix sep (drop j (X @ sep @ post))"
proof
  assume p: "prefix sep (drop j (X @ sep @ post))"
  define s where "s = X @ sep @ post"
  from prefix_drop_nth [OF p assms(1)]
  have len: "j + length sep \<le> length s" and d: "is_digit (s ! (j + (length sep - 1)))"
    using assms(2) by (simp_all add: s_def)
  let ?k = "j + (length sep - 1) - (length X + length sep)"
  have ge: "length X + length sep \<le> j + (length sep - 1)" using assms(1,4) by (cases sep) auto
  have lt: "?k < length post" using len ge assms(1) by (cases sep) (auto simp: s_def)
  have "s ! (j + (length sep - 1)) = ((X @ sep) @ post) ! (j + (length sep - 1))" by (simp add: s_def)
  also have "\<dots> = post ! ?k"
    using ge by (simp only: nth_append length_append) simp
  finally have "s ! (j + (length sep - 1)) = post ! ?k" .
  with d have "is_digit (post ! ?k)" by simp
  with lt assms(3) show False by (auto simp: no_digit_def list_all_length)
qed

lemma rsplit1_head_last_token:
  assumes "sep \<noteq> []" "is_digit (last sep)" "no_digit post"
  shows "rsplit1_head sep (X @ sep @ post) = X"
proof -
  have "rfind sep (X @ sep @ post) = Some (length X)"
    by (rule rfind_eqI) (use assms no_occurrence_after in auto)
  then show ?thesis by (simp add: rsplit1_head_def)
qed

subsection \<open>The text before the last two tokens\<close>

lemma rstrip_append_keep:
  assumes "A \<noteq> []" "\<not> is_space (last A)"
  shows "rstrip (A @ m) = A @ rstrip m"
proof -
  have h: "dropWhile is_space (rev A) = rev A"
    using assms by (cases "rev A") (auto simp: last_rev [symmetric] hd_rev)
  show ?thesis
    unfolding rstrip_def rev_append dropWhile_append
    using h by (auto simp: dropWhile_eq_Nil_conv)
qed

lemma rstrip_prefix: "prefix (rstrip m) m"
proof -
  have "rev m = takeWhile is_space (rev m) @ dropWhile is_space (rev m)" by simp
  then have "m = rev (dropWhile is_space (rev m)) @ rev (takeWhile is_space (rev m))"
    by (metis rev_append rev_rev_ident)
  then show ?thesis unfolding rstrip_def by (metis prefixI)
qed

lemma no_digit_prefix: "prefix a b \<Longrightarrow> no_digit b \<Longrightarrow> no_digit a"
  by (auto simp: prefix_def no_digit_def)

lemma digit_last_not_space: "n \<noteq> [] \<Longrightarrow> is_digit (last n) \<Longrightarrow> \<not> is_space (last (pre @ n))"
  by (simp add: digit_not_punct)

lemma line_head_decomp:
  assumes "n1 \<noteq> []" "is_digit (last n1)" "n2 \<noteq> []" "is_digit (last n2)"
    and "no_digit mid" "no_digit post"
  shows "line_head (pre @ n2 @ mid @ n1 @ post) n2 n1 = rstrip pre"
proof -
  define s where "s = pre @ n2 @ mid @ n1 @ post"
  have s1: "s = (pre @ n2 @ mid) @ n1 @ post" by (simp add: s_def)
  have r1: "rsplit1_head n1 s = pre @ n2 @ mid"
    unfolding s1 by (rule rsplit1_head_last_token [OF assms(1,2,6)])
  have r2: "rsplit1_head n2 (X @ n2 @ m) = X" if "no_digit m" for m X
    by (rule rsplit1_head_last_token [OF assms(3,4) that])
  show ?thesis
  proof (cases "endswith s (n2 @ '' '' @ n1)")
    case True
    define Y where "Y = take (length s - length (n2 @ '' '' @ n1)) s"
    from True have sY: "s = Y @ n2 @ '' '' @ n1"
      unfolding endswith_def Y_def by (metis append_take_drop_id)
    have "s = (Y @ n2 @ '' '') @ n1 @ []" using sY by simp
    then have "rsplit1_head n1 s = Y @ n2 @ '' ''"
      using rsplit1_head_last_token [OF assms(1,2), of "[]" "Y @ n2 @ '' ''"]
      by (simp add: no_digit_def)
    with r1 have e: "Y @ n2 @ '' '' = pre @ n2 @ mid" by simp
    have "no_digit '' ''" by (simp add: no_digit_def is_digit_def)
    from r2 [OF this] have "rsplit1_head n2 (Y @ n2 @ '' '') = Y" .
    moreover from r2 [OF assms(5)] have "rsplit1_head n2 (pre @ n2 @ mid) = pre" .
    ultimately have "Y = pre" using e by simp
    then show ?thesis using True
      by (simp add: line_head_def Let_def Y_def s_def [symmetric])
  next
    case False
    have "rstrip (rsplit1_head n1 s) = (pre @ n2) @ rstrip mid"
      unfolding r1 using rstrip_append_keep [of "pre @ n2" mid] digit_last_not_space [OF assms(3,4)] assms(3)
      by simp
    moreover have "no_digit (rstrip mid)" using no_digit_prefix [OF rstrip_prefix assms(5)] .
    ultimately have "rsplit1_head n2 (rstrip (rsplit1_head n1 s)) = pre" using r2 by simp
    then show ?thesis using False
      by (simp add: line_head_def Let_def s_def [symmetric])
  qed
qed











subsection \<open>Printing and reading amounts\<close>

lemma digit_char_props:
  assumes "0 \<le> d" "d < 10"
  shows "is_digit (digit_char d) \<and> digit_val (digit_char d) = d"
proof -
  from assms have "d = 0 \<or> d = 1 \<or> d = 2 \<or> d = 3 \<or> d = 4 \<or> d = 5 \<or> d = 6 \<or> d = 7 \<or> d = 8 \<or> d = 9"
    by arith
  then show ?thesis
    by (elim disjE) (simp_all add: digit_char_def is_digit_def digit_val_def)
qed

lemma int_of_digits_snoc: "int_of_digits (ds @ [c]) = 10 * int_of_digits ds + digit_val c"
  by (simp add: int_of_digits_def)

lemma dec_digits_props:
  "0 \<le> n \<Longrightarrow> list_all is_digit (dec_digits n) \<and> dec_digits n \<noteq> [] \<and> int_of_digits (dec_digits n) = n"
proof (induction n rule: dec_digits.induct)
  case (1 n)
  show ?case
  proof (cases "n < 10")
    case True
    then show ?thesis
      using "1.prems" digit_char_props [of n] by (simp add: dec_digits.simps [of n] int_of_digits_def)
  next
    case False
    then have "0 \<le> n div 10" by simp
    from "1.IH" [OF False this] digit_char_props [of "n mod 10"] False
    show ?thesis by (simp add: dec_digits.simps [of n] int_of_digits_snoc)
  qed
qed

lemma length_3_cases: "length xs = 3 \<Longrightarrow> \<exists>a b c. xs = [a, b, c]"
  by (auto simp: numeral_3_eq_3 length_Suc_conv)

lemma is_groups_append: "is_groups a \<Longrightarrow> is_groups b \<Longrightarrow> is_groups (a @ b)"
  by (induction a rule: is_groups.induct) auto

lemma is_groups_filter:
  "is_groups G \<Longrightarrow> list_all is_digit (filter (\<lambda>x. x \<noteq> CHR '','') G)"
  by (induction G rule: is_groups.induct) (auto simp: digit_not_punct)

lemma num_groups_is_groups:
  "is_groups G \<Longrightarrow> R = [] \<or> hd R \<noteq> CHR '','' \<Longrightarrow> num_groups (G @ R) = G"
proof (induction G rule: is_groups.induct)
  case 1
  then show ?case by (cases R rule: num_groups.cases) auto
next
  case (2 c d1 d2 d3 r)
  then show ?case by simp
qed simp_all

lemma group_thousands_shape:
  assumes "list_all is_digit ds" "ds \<noteq> []"
  shows "\<exists>g0 G. group_thousands ds = g0 @ G \<and> g0 \<noteq> [] \<and> length g0 \<le> 3 \<and>
           list_all is_digit g0 \<and> is_groups G \<and> g0 @ filter (\<lambda>x. x \<noteq> CHR '','') G = ds"
  using assms
proof (induction ds rule: group_thousands.induct)
  case (1 ds)
  show ?case
  proof (cases "length ds \<le> 3")
    case True
    then have "group_thousands ds = ds @ []" by (simp add: group_thousands.simps [of ds])
    then show ?thesis using True "1.prems" by (intro exI [of _ ds] exI [of _ "[]"]) simp
  next
    case False
    let ?a = "take (length ds - 3) ds" and ?b = "drop (length ds - 3) ds"
    have a: "list_all is_digit ?a" "?a \<noteq> []" and b: "list_all is_digit ?b" "length ?b = 3"
      using False "1.prems"(1) by (auto simp: list_all_iff dest: in_set_takeD in_set_dropD)
    from "1.IH" [OF False a] obtain g0 G where
      g: "group_thousands ?a = g0 @ G" "g0 \<noteq> []" "length g0 \<le> 3" "list_all is_digit g0"
         "is_groups G" "g0 @ filter (\<lambda>x. x \<noteq> CHR '','') G = ?a" by blast
    from length_3_cases [OF b(2)] obtain d1 d2 d3 where d0: "?b = [d1, d2, d3]" by blast
    with b(1) have d: "?b = [d1, d2, d3]" "is_digit d1" "is_digit d2" "is_digit d3" by simp_all
    have gb: "is_groups (CHR '','' # ?b)" using d by simp
    have fb: "filter (\<lambda>x. x \<noteq> CHR '','') (CHR '','' # ?b) = ?b"
      using d by (simp add: digit_not_punct)
    have "group_thousands ds = g0 @ (G @ CHR '','' # ?b)"
      using False g(1) by (simp add: group_thousands.simps [of ds])
    moreover have "is_groups (G @ CHR '','' # ?b)" using g(5) gb by (rule is_groups_append)
    moreover have "g0 @ filter (\<lambda>x. x \<noteq> CHR '','') (G @ CHR '','' # ?b) = ds"
    proof -
      have "g0 @ filter (\<lambda>x. x \<noteq> CHR '','') (G @ CHR '','' # ?b)
            = (g0 @ filter (\<lambda>x. x \<noteq> CHR '','') G) @ filter (\<lambda>x. x \<noteq> CHR '','') (CHR '','' # ?b)"
        by simp
      also have "\<dots> = ?a @ ?b" unfolding g(6) fb ..
      finally show ?thesis by simp
    qed
    ultimately show ?thesis using g(2,3,4) by blast
  qed
qed

lemma round_half_even_int: "round_half_even (of_int c) = c"
  by (simp add: round_half_even_def)

lemma fmt_parts_cents:
  "fmt_parts (of_int c / 100) =
     (if c < 0 then ''-'' else [], dec_digits (\<bar>c\<bar> div 100),
      [CHR ''.'', digit_char (\<bar>c\<bar> mod 100 div 10), digit_char (\<bar>c\<bar> mod 10)])"
proof -
  have "(of_int c / 100 :: rat) * 100 = of_int c" by simp
  moreover have "(of_int c / 100 :: rat) < 0 \<longleftrightarrow> c < 0" by (simp add: divide_less_0_iff)
  ultimately show ?thesis by (simp add: fmt_parts_def round_half_even_int Let_def)
qed

lemma cents_value:
  fixes a :: int
  assumes "0 \<le> a"
  shows "(of_int (a div 100) + of_int (10 * (a mod 100 div 10) + a mod 10) / 100 :: rat) = of_int a / 100"
proof -
  have "a mod 10 = a mod 100 mod 10" by (simp add: mod_mod_cancel)
  then have e: "10 * (a mod 100 div 10) + a mod 10 = a mod 100" by simp
  have "(of_int a :: rat) = of_int (a div 100 * 100 + a mod 100)" by simp
  also have "\<dots> = of_int (a div 100) * 100 + of_int (a mod 100)" by (simp only: of_int_add of_int_mult of_int_numeral)
  finally have "(of_int a :: rat) / 100 = of_int (a div 100) + of_int (a mod 100) / 100"
    by (simp add: add_divide_distrib)
  then show ?thesis unfolding e by simp
qed

lemma fmt_comma_2f_shape:
  "\<exists>g0 G d1 d2.
     fmt_comma_2f (of_int c / 100) = (if c < 0 then ''-'' else []) @ g0 @ G @ [CHR ''.'', d1, d2] \<and>
     g0 \<noteq> [] \<and> length g0 \<le> 3 \<and> list_all is_digit g0 \<and> is_groups G \<and> is_digit d1 \<and> is_digit d2 \<and>
     (of_int (int_of_digits (g0 @ filter (\<lambda>x. x \<noteq> CHR '','') G)) +
        of_int (int_of_digits [d1, d2]) / 100 :: rat) = of_int \<bar>c\<bar> / 100"
proof -
  define a where "a = \<bar>c\<bar>"
  have a0: "0 \<le> a" by (simp add: a_def)
  define d1 where "d1 = digit_char (a mod 100 div 10)"
  define d2 where "d2 = digit_char (a mod 10)"
  have q: "0 \<le> a mod 100 div 10" "a mod 100 div 10 < 10" "0 \<le> a mod 10" "a mod 10 < 10"
    using a0 by (simp_all add: div_less_iff_less_mult pos_imp_zdiv_nonneg_iff)
  have dd: "is_digit d1" "is_digit d2" "digit_val d1 = a mod 100 div 10" "digit_val d2 = a mod 10"
    using digit_char_props [OF q(1,2)] digit_char_props [OF q(3,4)] by (simp_all add: d1_def d2_def)
  have n0: "0 \<le> a div 100" using a0 by (simp add: pos_imp_zdiv_nonneg_iff)
  from dec_digits_props [OF n0] have ds: "list_all is_digit (dec_digits (a div 100))"
    "dec_digits (a div 100) \<noteq> []" "int_of_digits (dec_digits (a div 100)) = a div 100" by simp_all
  from group_thousands_shape [OF ds(1,2)] obtain g0 G where
    g: "group_thousands (dec_digits (a div 100)) = g0 @ G" "g0 \<noteq> []" "length g0 \<le> 3"
       "list_all is_digit g0" "is_groups G"
       "g0 @ filter (\<lambda>x. x \<noteq> CHR '','') G = dec_digits (a div 100)" by blast
  have v2: "int_of_digits [d1, d2] = 10 * (a mod 100 div 10) + a mod 10"
    using dd by (simp add: int_of_digits_def)
  have "fmt_comma_2f (of_int c / 100) = (if c < 0 then ''-'' else []) @ g0 @ G @ [CHR ''.'', d1, d2]"
    using g(1) by (simp add: fmt_comma_2f_def fmt_parts_cents a_def d1_def d2_def)
  moreover have "(of_int (int_of_digits (g0 @ filter (\<lambda>x. x \<noteq> CHR '','') G)) +
        of_int (int_of_digits [d1, d2]) / 100 :: rat) = of_int \<bar>c\<bar> / 100"
    unfolding g(6) ds(3) v2 using cents_value [OF a0] by (simp add: a_def)
  ultimately show ?thesis using g(2,3,4,5) dd(1,2) by blast
qed

lemma unsigned_float_frac:
  assumes "list_all is_digit ds" "ds \<noteq> []" "is_digit d1" "is_digit d2"
  shows "unsigned_float (ds @ [CHR ''.'', d1, d2]) =
           Some (of_int (int_of_digits ds) + of_int (int_of_digits [d1, d2]) / 100)"
proof -
  have nd: "\<not> is_digit CHR ''.''" by (simp add: is_digit_def)
  from takeWhile_all_then [OF assms(1), of "[CHR ''.'', d1, d2]"] nd
  have t: "takeWhile is_digit (ds @ [CHR ''.'', d1, d2]) = ds"
          "dropWhile is_digit (ds @ [CHR ''.'', d1, d2]) = [CHR ''.'', d1, d2]" by simp_all
  show ?thesis unfolding unsigned_float_def t Let_def using assms by simp
qed

lemma unsigned_float_int:
  assumes "list_all is_digit ds" "ds \<noteq> []"
  shows "unsigned_float ds = Some (of_int (int_of_digits ds))"
proof -
  from takeWhile_all_then [OF assms(1), of "[]"]
  have t: "takeWhile is_digit ds = ds" "dropWhile is_digit ds = []" by simp_all
  show ?thesis unfolding unsigned_float_def t Let_def using assms by simp
qed

lemma hd_take_pos: "R \<noteq> [] \<Longrightarrow> 0 < k \<Longrightarrow> hd (take k R) = hd R"
  by (cases R; cases k) auto

lemma unsigned_float_cents:
  assumes "list_all is_digit ds" "ds \<noteq> []"
    and "fr = [] \<or> (\<exists>d1 d2. fr = [CHR ''.'', d1, d2] \<and> is_digit d1 \<and> is_digit d2)"
  shows "\<exists>c. 0 \<le> c \<and> unsigned_float (ds @ fr) = Some (of_int c / 100)"
proof -
  have nonneg: "0 \<le> int_of_digits xs" if "list_all is_digit xs" for xs
    using that
  proof (induction xs rule: rev_induct)
    case Nil
    then show ?case by (simp add: int_of_digits_def)
  next
    case (snoc x xs)
    then have "0 \<le> digit_val x"
      by (auto simp: digit_val_def is_digit_def)
    with snoc show ?case by (simp add: int_of_digits_snoc)
  qed
  from assms(3) show ?thesis
  proof
    assume "fr = []"
    then have "unsigned_float (ds @ fr) = Some (of_int (100 * int_of_digits ds) / 100)"
      using unsigned_float_int [OF assms(1,2)] by simp
    moreover have "0 \<le> 100 * int_of_digits ds" using nonneg [OF assms(1)] by simp
    ultimately show ?thesis by blast
  next
    assume "\<exists>d1 d2. fr = [CHR ''.'', d1, d2] \<and> is_digit d1 \<and> is_digit d2"
    then obtain d1 d2 where d: "fr = [CHR ''.'', d1, d2]" "is_digit d1" "is_digit d2" by blast
    have "(of_int (int_of_digits ds) + of_int (int_of_digits [d1, d2]) / 100 :: rat)
          = of_int (100 * int_of_digits ds + int_of_digits [d1, d2]) / 100"
      by (simp add: add_divide_distrib)
    then have "unsigned_float (ds @ fr) = Some (of_int (100 * int_of_digits ds + int_of_digits [d1, d2]) / 100)"
      using unsigned_float_frac [OF assms(1,2) d(2,3)] d(1) by simp
    moreover have "0 \<le> 100 * int_of_digits ds + int_of_digits [d1, d2]"
      using nonneg [OF assms(1)] nonneg [of "[d1, d2]"] d(2,3) by simp
    ultimately show ?thesis by blast
  qed
qed

lemma num_unsigned_cents:
  assumes "num_unsigned s = Some tok"
  shows "\<exists>c. 0 \<le> c \<and> unsigned_float (filter (\<lambda>x. x \<noteq> CHR '','') tok) = Some (of_int c / 100)"
proof -
  from num_unsigned_shape [OF assms] obtain ds gs fr where
    sh: "tok = ds @ gs @ fr" "ds \<noteq> []" "list_all is_digit ds"
        "list_all is_digit (filter (\<lambda>x. x \<noteq> CHR '','') gs)"
        "fr = [] \<or> (\<exists>d1 d2. fr = [CHR ''.'', d1, d2] \<and> is_digit d1 \<and> is_digit d2)"
    by blast
  have fds: "filter (\<lambda>x. x \<noteq> CHR '','') ds = ds"
    using sh(3) by (auto simp: list_all_iff digit_not_punct intro!: filter_True)
  have ffr: "filter (\<lambda>x. x \<noteq> CHR '','') fr = fr"
    using sh(5) by (auto simp: digit_not_punct)
  have "filter (\<lambda>x. x \<noteq> CHR '','') tok = (ds @ filter (\<lambda>x. x \<noteq> CHR '','') gs) @ fr"
    using sh(1) fds ffr by simp
  moreover have "\<exists>c. 0 \<le> c \<and> unsigned_float ((ds @ filter (\<lambda>x. x \<noteq> CHR '','') gs) @ fr) = Some (of_int c / 100)"
    by (rule unsigned_float_cents) (use sh in auto)
  ultimately show ?thesis by simp
qed

lemma match_num_cents:
  assumes "match_num s = Some tok"
  shows "\<exists>c. py_float (replace '','' [] tok) = Some (of_int c / 100)"
proof -
  from match_num_cases [OF assms] show ?thesis
  proof
    assume "\<exists>r u. s = CHR ''-'' # r \<and> num_unsigned r = Some u \<and> tok = CHR ''-'' # u"
    then obtain r u where u: "num_unsigned r = Some u" "tok = CHR ''-'' # u" by blast
    from num_unsigned_cents [OF u(1)] obtain c where
      "unsigned_float (filter (\<lambda>x. x \<noteq> CHR '','') u) = Some (of_int c / 100)" by blast
    then have "py_float (replace '','' [] tok) = Some (of_int (- c) / 100)"
      using u(2) by (simp add: replace_single_empty py_float_def)
    then show ?thesis by blast
  next
    assume a: "num_unsigned s = Some tok \<and> (s = [] \<or> hd s \<noteq> CHR ''-'')"
    then have d: "tok \<noteq> []" "is_digit (hd tok)" using num_unsigned_first_digit by blast+
    then obtain c t where ct: "tok = c # t" "c \<noteq> CHR '',''" "c \<noteq> CHR ''-''"
      by (cases tok) (auto simp: digit_not_punct)
    from num_unsigned_cents a obtain v where
      "unsigned_float (filter (\<lambda>x. x \<noteq> CHR '','') tok) = Some (of_int v / 100)" by blast
    then have "py_float (replace '','' [] tok) = Some (of_int v / 100)"
      using ct by (auto simp: replace_single_empty py_float_def)
    then show ?thesis by blast
  qed
qed

text \<open>A printed amount is one token, whatever follows it, and reads back as the amount.\<close>

lemma fmt_comma_2f_token:
  "match_num (fmt_comma_2f (of_int c / 100) @ rest) = Some (fmt_comma_2f (of_int c / 100)) \<and>
   py_float (replace '','' [] (fmt_comma_2f (of_int c / 100))) = Some (of_int c / 100) \<and>
   fmt_comma_2f (of_int c / 100) \<noteq> [] \<and> is_digit (last (fmt_comma_2f (of_int c / 100)))"
proof -
  from fmt_comma_2f_shape [of c] obtain g0 G d1 d2 where
    f: "fmt_comma_2f (of_int c / 100) = (if c < 0 then ''-'' else []) @ g0 @ G @ [CHR ''.'', d1, d2]"
    and g: "g0 \<noteq> []" "length g0 \<le> 3" "list_all is_digit g0" "is_groups G" "is_digit d1" "is_digit d2"
    and v: "(of_int (int_of_digits (g0 @ filter (\<lambda>x. x \<noteq> CHR '','') G)) +
        of_int (int_of_digits [d1, d2]) / 100 :: rat) = of_int \<bar>c\<bar> / 100" by blast
  define U where "U = g0 @ G @ [CHR ''.'', d1, d2]"
  have nd: "\<not> is_digit CHR ''.''" "\<not> is_digit CHR '',''" by (simp_all add: is_digit_def)
  \<comment> \<open>the unsigned part is matched whole\<close>
  have u: "num_unsigned (U @ rest) = Some U"
  proof -
    define R where "R = G @ [CHR ''.'', d1, d2] @ rest"
    have hdR: "R \<noteq> [] \<and> \<not> is_digit (hd R)"
      unfolding R_def using g(4) nd by (cases G rule: is_groups.cases) auto
    have s: "U @ rest = g0 @ R" by (simp add: U_def R_def)
    have t3: "take 3 (g0 @ R) = g0 @ take (3 - length g0) R" using g(2) by simp
    have "take (3 - length g0) R = [] \<or> \<not> is_digit (hd (take (3 - length g0) R))"
      using hdR hd_take_pos [of R "3 - length g0"] by (cases "3 - length g0") auto
    from takeWhile_all_then [OF g(3) this]
    have tw: "takeWhile is_digit (take 3 (U @ rest)) = g0"
      unfolding s t3 by simp
    have d1': "drop (length g0) (U @ rest) = G @ ([CHR ''.'', d1, d2] @ rest)" by (simp add: s R_def)
    have ng: "num_groups (drop (length g0) (U @ rest)) = G"
      unfolding d1' by (rule num_groups_is_groups [OF g(4)]) simp
    have d2': "drop (length g0 + length G) (U @ rest) = [CHR ''.'', d1, d2] @ rest"
      by (simp add: s R_def)
    have nf: "num_fraction (drop (length g0 + length G) (U @ rest)) = [CHR ''.'', d1, d2]"
      unfolding d2' using g(5,6) by (simp add: num_fraction_def)
    show ?thesis
      unfolding num_unsigned_def tw Let_def ng nf using g(1) by (simp add: U_def)
  qed
  have hdU: "U \<noteq> [] \<and> is_digit (hd U)" using g(1,3) by (cases g0) (auto simp: U_def)
  then have hdU': "hd U \<noteq> CHR ''-''" using digit_not_punct by blast
  have m: "match_num (fmt_comma_2f (of_int c / 100) @ rest) = Some (fmt_comma_2f (of_int c / 100))"
  proof (cases "c < 0")
    case True
    then show ?thesis using u f by (simp add: match_num_def U_def)
  next
    case False
    then have "fmt_comma_2f (of_int c / 100) = U" using f by (simp add: U_def)
    moreover have "match_num (U @ rest) = num_unsigned (U @ rest)"
      using hdU hdU' by (cases U) (auto simp: match_num_def)
    ultimately show ?thesis using u by simp
  qed
  \<comment> \<open>the value\<close>
  have fU: "filter (\<lambda>x. x \<noteq> CHR '','') U = (g0 @ filter (\<lambda>x. x \<noteq> CHR '','') G) @ [CHR ''.'', d1, d2]"
    using g(3,5,6) by (auto simp: U_def list_all_iff digit_not_punct intro!: filter_True)
  have "list_all is_digit (g0 @ filter (\<lambda>x. x \<noteq> CHR '','') G)"
    using g(3) is_groups_filter [OF g(4)] by simp
  from unsigned_float_frac [OF this _ g(5,6)] g(1)
  have uf: "unsigned_float (filter (\<lambda>x. x \<noteq> CHR '','') U) = Some (of_int \<bar>c\<bar> / 100)"
    unfolding fU v by simp
  have p: "py_float (replace '','' [] (fmt_comma_2f (of_int c / 100))) = Some (of_int c / 100)"
  proof (cases "c < 0")
    case True
    then show ?thesis using uf f by (simp add: replace_single_empty py_float_def U_def)
  next
    case False
    then have e: "fmt_comma_2f (of_int c / 100) = U" using f by (simp add: U_def)
    obtain h t where ht: "U = h # t" "h \<noteq> CHR ''-''" "h \<noteq> CHR '',''"
      using hdU digit_not_punct by (cases U) auto
    have "py_float (filter (\<lambda>x. x \<noteq> CHR '','') U) = unsigned_float (filter (\<lambda>x. x \<noteq> CHR '','') U)"
      using ht by (simp add: py_float_def)
    then show ?thesis using uf False e by (simp add: replace_single_empty)
  qed
  have l: "fmt_comma_2f (of_int c / 100) \<noteq> [] \<and> is_digit (last (fmt_comma_2f (of_int c / 100)))"
    using f g(6) by simp
  from m p l show ?thesis by blast
qed

subsection \<open>Labels and white space\<close>

lemma collapsed_Cons: "collapsed (c # s) \<Longrightarrow> collapsed s"
  by (cases s) auto

lemma collapsed_appendD: "collapsed (a @ b) \<Longrightarrow> collapsed a \<and> collapsed b"
proof (induction a rule: collapsed.induct)
  case 1
  then show ?case by simp
next
  case (2 c)
  then show ?case by (cases b) auto
next
  case (3 c d r)
  then show ?case by auto
qed

lemma collapsed_space: "collapsed s \<Longrightarrow> c \<in> set s \<Longrightarrow> is_space c \<Longrightarrow> c = CHR '' ''"
  by (induction s rule: collapsed.induct) auto

lemma collapse_ws_hd:
  "s \<noteq> [] \<Longrightarrow> \<not> is_space (hd s) \<Longrightarrow> collapse_ws s \<noteq> [] \<and> hd (collapse_ws s) = hd s"
  by (cases s) auto

lemma collapse_ws_collapsed: "collapsed (collapse_ws s)"
proof (induction s rule: collapse_ws.induct)
  case 1
  then show ?case by simp
next
  case (2 c cs)
  show ?case
  proof (cases "is_space c")
    case True
    let ?r = "dropWhile is_space cs"
    have ih: "collapsed (collapse_ws ?r)" using "2.IH"(1) [OF True] .
    show ?thesis
    proof (cases ?r)
      case Nil
      have "collapse_ws (c # cs) = [CHR '' '']"
        using True Nil by (simp del: dropWhile_eq_Nil_conv)
      then show ?thesis by simp
    next
      case (Cons x xs)
      then have "\<not> is_space x" by (metis hd_dropWhile list.sel(1) list.distinct(1))
      with Cons collapse_ws_hd [of ?r] obtain ys where
        ys: "collapse_ws ?r = x # ys" by (cases "collapse_ws ?r") auto
      with ih \<open>\<not> is_space x\<close> True show ?thesis by simp
    qed
  next
    case False
    from "2.IH"(2) [OF False] False show ?thesis
      by (cases "collapse_ws cs") auto
  qed
qed

lemma collapsed_fixed: "collapsed s \<Longrightarrow> collapse_ws s = s"
proof (induction s rule: collapsed.induct)
  case 1
  then show ?case by simp
next
  case (2 c)
  then show ?case by auto
next
  case (3 c d r)
  then show ?case by (cases "is_space c") auto
qed

lemma collapsed_snoc: "collapsed s \<Longrightarrow> \<not> is_space c \<Longrightarrow> collapsed (s @ [c])"
  by (induction s rule: collapsed.induct) auto

lemma collapse_ws_keeps: "c \<in> set s \<Longrightarrow> \<not> is_space c \<Longrightarrow> c \<in> set (collapse_ws s)"
proof (induction s rule: collapse_ws.induct)
  case 1
  then show ?case by simp
next
  case (2 x xs)
  show ?case
  proof (cases "is_space x")
    case True
    with "2.prems" have "c \<in> set xs" by auto
    then have "c \<in> set (dropWhile is_space xs)"
      using "2.prems"(2) by (induction xs) auto
    with "2.IH"(1) [OF True] "2.prems"(2) True show ?thesis by simp
  next
    case False
    with "2.IH"(2) [OF False] "2.prems" show ?thesis by auto
  qed
qed

subsection \<open>Stripping\<close>

lemma dropWhile_keeps: "c \<in> set s \<Longrightarrow> \<not> P c \<Longrightarrow> c \<in> set (dropWhile P s)"
  by (induction s) auto

lemma strip_chars_keeps: "c \<in> set s \<Longrightarrow> c \<notin> set cs \<Longrightarrow> c \<in> set (strip_chars cs s)"
  unfolding strip_chars_def by (simp add: dropWhile_keeps)

lemma strip_chars_sub: "\<exists>a b. s = a @ strip_chars cs s @ b"
proof -
  let ?P = "\<lambda>c. c \<in> set cs"
  let ?t = "dropWhile ?P s"
  have 1: "s = takeWhile ?P s @ ?t" by simp
  have "rev ?t = takeWhile ?P (rev ?t) @ dropWhile ?P (rev ?t)" by simp
  then have 2: "?t = rev (dropWhile ?P (rev ?t)) @ rev (takeWhile ?P (rev ?t))"
    by (metis rev_append rev_rev_ident)
  have "s = takeWhile ?P s @ strip_chars cs s @ rev (takeWhile ?P (rev ?t))"
    unfolding strip_chars_def using 1 2 by metis
  then show ?thesis by blast
qed

lemma strip_chars_ends:
  assumes "strip_chars cs s \<noteq> []"
  shows "hd (strip_chars cs s) \<notin> set cs \<and> last (strip_chars cs s) \<notin> set cs"
proof -
  let ?P = "\<lambda>c. c \<in> set cs"
  let ?u = "dropWhile ?P (rev (dropWhile ?P s))"
  have u: "?u \<noteq> []" using assms by (simp add: strip_chars_def)
  have "dropWhile ?P (strip_chars cs s) = strip_chars cs s"
    unfolding strip_chars_def by (rule two_sided_head)
  then have "\<not> ?P (hd (strip_chars cs s))" using assms by (metis hd_dropWhile)
  moreover have "\<not> ?P (hd ?u)" using u by (metis hd_dropWhile)
  then have "\<not> ?P (last (strip_chars cs s))" using u by (simp add: strip_chars_def last_rev)
  ultimately show ?thesis by simp
qed

lemma strip_fixed:
  assumes "s \<noteq> []" "\<not> is_space (hd s)" "\<not> is_space (last s)"
  shows "strip s = s"
proof -
  have "dropWhile is_space s = s" using assms(1,2) by (cases s) auto
  moreover have "dropWhile is_space (rev s) = rev s"
    using assms(1,3) by (cases "rev s") (auto simp: last_rev [symmetric] hd_rev)
  ultimately show ?thesis by (simp add: strip_def lstrip_def rstrip_def)
qed

lemma strip_chars_fixed:
  assumes "s \<noteq> []" "hd s \<notin> set cs" "last s \<notin> set cs"
  shows "strip_chars cs s = s"
proof -
  have "dropWhile (\<lambda>c. c \<in> set cs) s = s" using assms(1,2) by (cases s) auto
  moreover have "dropWhile (\<lambda>c. c \<in> set cs) (rev s) = rev s"
    using assms(1,3) by (cases "rev s") (auto simp: last_rev [symmetric] hd_rev)
  ultimately show ?thesis by (simp add: strip_chars_def)
qed

subsection \<open>The categories that the heuristic returns\<close>

lemma canon_values_good: "list_all (\<lambda>kv. good_label (snd kv)) CATEGORY_CANON"
  by code_simp

lemma canon_match_good:
  assumes "canon_match s = Some v"
  shows "good_label v"
proof -
  have "v \<in> snd ` set CATEGORY_CANON"
    using assms by (auto simp: canon_match_def Let_def split: option.splits dest!: map_of_SomeD intro: rev_image_eqI)
  then show ?thesis using canon_values_good by (auto simp: list_all_iff)
qed

lemma trimmed_head_good:
  assumes "list_ex is_alpha head"
  shows "good_label (normalize_category (strip_chars '':- '' (collapse_ws head)))"
proof -
  define h where "h = strip_chars '':- '' (collapse_ws head)"
  from assms obtain c where c: "c \<in> set head" "is_alpha c" by (auto simp: list_ex_iff)
  have cs: "\<not> is_space c" "c \<notin> set '':- ''"
    using c(2) by (auto simp: char_class_defs)
  have ch: "c \<in> set h"
    unfolding h_def using c(1) cs by (intro strip_chars_keeps collapse_ws_keeps)
  then have ne: "h \<noteq> []" and al: "list_ex is_alpha h" using c(2) by (auto simp: list_ex_iff)
  from strip_chars_sub [of "collapse_ws head" "'':- ''"] obtain a b where
    "collapse_ws head = a @ h @ b" by (auto simp: h_def)
  then have col: "collapsed h" using collapse_ws_collapsed [of head] collapsed_appendD by metis
  have ends: "hd h \<notin> set '':- ''" "last h \<notin> set '':- ''"
    using strip_chars_ends [of "'':- ''" "collapse_ws head"] ne by (simp_all add: h_def)
  show ?thesis
  proof (cases "canon_match h")
    case (Some v)
    then show ?thesis using canon_match_good [OF Some] by (simp add: normalize_category_def h_def)
  next
    case None
    have "\<not> is_space (hd h)" "\<not> is_space (last h)"
      using collapsed_space [OF col, of "hd h"] collapsed_space [OF col, of "last h"] ne ends
      by auto
    then have "strip h = h" using strip_fixed ne by blast
    then have "normalize_category h = h" using None by (simp add: normalize_category_def)
    then show ?thesis using ne col ends al by (simp add: good_label_def h_def)
  qed
qed

lemma line_to_category_and_numbers_result:
  assumes "line_to_category_and_numbers raw = (Some cat, Some cur, Some ytd)"
  shows "good_label cat \<and> (\<exists>c. cur = of_int c / 100) \<and> (\<exists>c. ytd = of_int c / 100)"
proof -
  define line where "line = strip raw"
  define nums where "nums = find_nums line"
  define n2 where "n2 = nums ! (length nums - 2)"
  define n1 where "n1 = nums ! (length nums - 1)"
  define head where "head = line_head line n2 n1"
  from assms have len: "2 \<le> length nums"
    and cur: "py_float (replace '','' [] n2) = Some cur"
    and ytd: "py_float (replace '','' [] n1) = Some ytd"
    and al: "list_ex is_alpha head"
    and cat: "cat = normalize_category (strip_chars '':- '' (collapse_ws head))"
    unfolding line_to_category_and_numbers_def Let_def line_def [symmetric] nums_def [symmetric]
      n2_def [symmetric] n1_def [symmetric] head_def [symmetric]
    by (auto split: if_splits option.splits)
  have "n2 \<in> set nums" "n1 \<in> set nums" using len by (simp_all add: n2_def n1_def)
  then obtain t2 t1 where "match_num t2 = Some n2" "match_num t1 = Some n1"
    unfolding nums_def using find_nums_tokens by blast
  from match_num_cents [OF this(1)] match_num_cents [OF this(2)] cur ytd
  have "(\<exists>c. cur = of_int c / 100) \<and> (\<exists>c. ytd = of_int c / 100)" by auto
  with trimmed_head_good [OF al] cat show ?thesis by simp
qed

subsection \<open>Tokens do not cross a separator\<close>

lemma takeWhile_take_sep:
  "\<not> P c \<Longrightarrow> takeWhile P (take n (u @ c # v)) = takeWhile P (take n u)"
proof (induction u arbitrary: n)
  case Nil
  then show ?case by (cases n) auto
next
  case (Cons x u)
  then show ?case by (cases n) auto
qed

lemma num_groups_unfold:
  "num_groups s =
     (case s of
        c # d1 # d2 # d3 # r \<Rightarrow>
          if c = CHR '','' \<and> is_digit d1 \<and> is_digit d2 \<and> is_digit d3
          then c # d1 # d2 # d3 # num_groups r else []
      | _ \<Rightarrow> [])"
  by (cases s rule: num_groups.cases) auto

lemma num_groups_sep:
  assumes "sep_char c"
  shows "num_groups (w @ c # v) = num_groups w"
proof (induction w rule: num_groups.induct)
  case (1 c' d1 d2 d3 r)
  then show ?case by simp
qed (use assms in \<open>(subst num_groups_unfold, simp add: sep_char_def split: list.splits)+\<close>)

lemma num_fraction_sep:
  assumes "sep_char c"
  shows "num_fraction (w @ c # v) = num_fraction w"
  using assms by (cases w rule: num_groups.cases) (auto simp: num_fraction_def sep_char_def split: list.splits)

lemma num_unsigned_sep:
  assumes "sep_char c"
  shows "num_unsigned (u @ c # v) = num_unsigned u"
proof -
  have nd: "\<not> is_digit c" using assms by (simp add: sep_char_def)
  define ds where "ds = takeWhile is_digit (take 3 u)"
  have tw: "takeWhile is_digit (take 3 (u @ c # v)) = ds"
    unfolding ds_def using nd by (rule takeWhile_take_sep [of is_digit c])
  have "prefix ds (take 3 u)" unfolding ds_def by (metis prefixI takeWhile_dropWhile_id)
  then have "prefix ds u" using take_is_prefix prefix_order.trans by blast
  then have l1: "length ds \<le> length u" by (rule prefix_length_le)
  then have d1: "drop (length ds) (u @ c # v) = drop (length ds) u @ c # v" by simp
  define gs where "gs = num_groups (drop (length ds) u)"
  have g: "num_groups (drop (length ds) (u @ c # v)) = gs"
    unfolding d1 gs_def by (rule num_groups_sep [OF assms])
  have "prefix gs (drop (length ds) u)" unfolding gs_def by (rule num_groups_prefix)
  then have "length gs \<le> length u - length ds" using prefix_length_le by fastforce
  then have d2: "drop (length ds + length gs) (u @ c # v) = drop (length ds + length gs) u @ c # v"
    using l1 by simp
  have f: "num_fraction (drop (length ds + length gs) (u @ c # v)) = num_fraction (drop (length ds + length gs) u)"
    unfolding d2 by (rule num_fraction_sep [OF assms])
  show ?thesis
    unfolding num_unsigned_def tw Let_def g f ds_def [symmetric] gs_def [symmetric] ..
qed

lemma match_num_sep:
  assumes "sep_char c"
  shows "match_num (u @ c # v) = match_num u"
proof (cases u)
  case Nil
  have "num_unsigned ([] @ c # v) = num_unsigned []" by (rule num_unsigned_sep [OF assms])
  then show ?thesis using Nil assms by (simp add: match_num_def sep_char_def num_unsigned_def)
next
  case (Cons x r)
  show ?thesis
  proof (cases "x = CHR ''-''")
    case True
    then show ?thesis using Cons num_unsigned_sep [OF assms, of r v] by (simp add: match_num_def)
  next
    case False
    then show ?thesis using Cons num_unsigned_sep [OF assms, of "x # r" v] by (simp add: match_num_def)
  qed
qed

lemma find_nums_append_sep:
  assumes "sep_char c"
  shows "find_nums (a @ c # b) = find_nums a @ find_nums b"
proof (induction a rule: find_nums.induct)
  case 1
  have "match_num (c # b) = None"
    using match_num_sep [OF assms, of "[]" b] by (simp add: match_num_def)
  then show ?case by simp
next
  case (2 x xs)
  have m: "match_num (x # xs @ c # b) = match_num (x # xs)"
    using match_num_sep [OF assms, of "x # xs" b] by simp
  show ?case
  proof (cases "match_num (x # xs)")
    case None
    then show ?thesis using m "2.IH"(1) [OF None] by simp
  next
    case (Some tok)
    from match_num_prefix [OF Some] match_num_nonempty [OF Some]
    have "length tok \<le> Suc (length xs)" "tok \<noteq> []"
      using prefix_length_le by fastforce+
    then have "drop (length tok - 1) (xs @ c # b) = drop (length tok - 1) xs @ c # b" by simp
    then show ?thesis using m Some "2.IH"(2) [OF Some] by simp
  qed
qed

lemma find_nums_single:
  assumes "match_num F = Some F"
  shows "find_nums (CHR '' '' # F) = [F]"
proof -
  have "match_num (CHR '' '' # F) = None"
    by (simp add: match_num_def num_unsigned_def is_digit_def)
  moreover obtain f fs where F: "F = f # fs" using match_num_nonempty [OF assms] by (cases F) auto
  ultimately show ?thesis using assms by simp
qed

subsection \<open>Round trip through the readable text\<close>

lemma row_line_reextract:
  assumes "good_label cat" "list_all is_space indent"
  shows "line_to_category_and_numbers (indent @ row_line cat (of_int c1 / 100) (of_int c2 / 100))
           = (Some cat, Some (of_int c1 / 100), Some (of_int c2 / 100))"
proof -
  define F1 where "F1 = fmt_comma_2f (of_int c1 / 100)"
  define F2 where "F2 = fmt_comma_2f (of_int c2 / 100)"
  define row where "row = ''- '' @ cat @ '': '' @ F1 @ ''; '' @ F2"
  have row_eq: "row_line cat (of_int c1 / 100) (of_int c2 / 100) = row"
    by (simp add: row_line_def row_def F1_def F2_def)
  from assms(1) have cat: "cat \<noteq> []" "collapsed cat" "hd cat \<notin> set '':- ''" "last cat \<notin> set '':- ''"
    "list_ex is_alpha cat" "normalize_category cat = cat" by (simp_all add: good_label_def)
  have t1: "match_num (F1 @ rest) = Some F1" "py_float (replace '','' [] F1) = Some (of_int c1 / 100)"
    "F1 \<noteq> []" "is_digit (last F1)" for rest
    using fmt_comma_2f_token [of c1] by (simp_all add: F1_def)
  have t2: "match_num (F2 @ rest) = Some F2" "py_float (replace '','' [] F2) = Some (of_int c2 / 100)"
    "F2 \<noteq> []" "is_digit (last F2)" for rest
    using fmt_comma_2f_token [of c2] by (simp_all add: F2_def)
  have sp: "\<not> is_space CHR ''-''" "\<not> is_space CHR '':''" "is_space CHR '' ''"
    by (simp_all add: is_space_def)
  \<comment> \<open>the stripped line\<close>
  have "last row = last F2" using t2(3) by (simp add: row_def)
  then have "\<not> is_space (last row)" using t2(4) digit_not_punct by simp
  moreover have "hd row = CHR ''-''" "row \<noteq> []" by (simp_all add: row_def)
  ultimately have "strip row = row" using sp(1) by (intro strip_fixed) simp_all
  moreover have "lstrip (indent @ row) = lstrip row"
    unfolding lstrip_def using assms(2) by (intro dropWhile_append2) (simp add: list_all_iff)
  ultimately have strip: "strip (indent @ row) = row" by (simp add: strip_def)
  \<comment> \<open>its tokens\<close>
  have sc: "sep_char CHR '':''" "sep_char CHR '';''" by (simp_all add: sep_char_def is_digit_def)
  have "row = (''- '' @ cat) @ CHR '':'' # ((CHR '' '' # F1) @ CHR '';'' # (CHR '' '' # F2))"
    by (simp add: row_def)
  then have "find_nums row = find_nums (''- '' @ cat) @ find_nums (CHR '' '' # F1) @ find_nums (CHR '' '' # F2)"
    by (simp only: find_nums_append_sep [OF sc(1)] find_nums_append_sep [OF sc(2)])
  then have nums: "find_nums row = find_nums (''- '' @ cat) @ [F1, F2]"
    using find_nums_single [of F1] find_nums_single [of F2] t1(1) [of "[]"] t2(1) [of "[]"] by simp
  \<comment> \<open>the head\<close>
  have "row = (''- '' @ cat @ '': '') @ F1 @ ''; '' @ F2 @ []" by (simp add: row_def)
  moreover have "no_digit ''; ''" "no_digit []" by (simp_all add: no_digit_def is_digit_def)
  ultimately have "line_head row F1 F2 = rstrip (''- '' @ cat @ '': '')"
    using line_head_decomp [OF t2(3,4) t1(3,4), of "''; ''" "[]" "''- '' @ cat @ '': ''"] by simp
  also have "\<dots> = rstrip ((''- '' @ cat @ '':'') @ '' '')" by simp
  also have "\<dots> = (''- '' @ cat @ '':'') @ rstrip '' ''"
    by (rule rstrip_append_keep) (simp_all add: sp)
  also have "\<dots> = ''- '' @ cat @ '':''" by (simp add: rstrip_def sp)
  finally have head: "line_head row F1 F2 = ''- '' @ cat @ '':''" .
  have alpha: "list_ex is_alpha (''- '' @ cat @ '':'')" using cat(5) by (simp add: list_ex_iff)
  \<comment> \<open>the category\<close>
  have nsp: "\<not> is_space (hd cat)"
  proof
    assume "is_space (hd cat)"
    then have "hd cat = CHR '' ''" using collapsed_space [OF cat(2), of "hd cat"] cat(1) by simp
    with cat(3) show False by simp
  qed
  have "collapsed (cat @ '':'')" using collapsed_snoc [OF cat(2) sp(2)] .
  then have "collapsed (''- '' @ cat @ '':'')"
    using nsp cat(1) sp by (cases cat) simp_all
  then have col: "collapse_ws (''- '' @ cat @ '':'') = ''- '' @ cat @ '':''" by (rule collapsed_fixed)
  have dl: "dropWhile (\<lambda>c. c \<in> set '':- '') (''- '' @ cat @ '':'') = cat @ '':''"
    using cat(1,3) by (cases cat) simp_all
  have "dropWhile (\<lambda>c. c \<in> set '':- '') (rev (cat @ '':'')) = rev cat"
    using cat(1,4) by (cases "rev cat") (auto simp: last_rev [symmetric] hd_rev)
  then have sc: "strip_chars '':- '' (''- '' @ cat @ '':'') = cat"
    unfolding strip_chars_def dl by simp
  \<comment> \<open>together\<close>
  have nth: "(find_nums (''- '' @ cat) @ [F1, F2]) ! (length (find_nums (''- '' @ cat) @ [F1, F2]) - 2) = F1"
            "(find_nums (''- '' @ cat) @ [F1, F2]) ! (length (find_nums (''- '' @ cat) @ [F1, F2]) - 1) = F2"
    by (simp_all add: nth_append)
  have "line_to_category_and_numbers (indent @ row) = (Some cat, Some (of_int c1 / 100), Some (of_int c2 / 100))"
    unfolding line_to_category_and_numbers_def strip Let_def nums nth
    using t1(2) t2(2) head alpha col sc cat(6) by (simp add: row_def)
  then show ?thesis by (simp add: row_eq)
qed

text \<open>
  Every record that \<^verbatim>\<open>line_to_category_and_numbers\<close> returns is reproduced from its own
  row line, both as written in the group summary
  (\<^verbatim>\<open>"- {cat}: {cur:,.2f}; {ytd:,.2f}"\<close>) and as written, indented, in the provider details.
\<close>

lemma rendered_row_round_trip:
  assumes "line_to_category_and_numbers raw = (Some cat, Some cur, Some ytd)"
  shows "line_to_category_and_numbers (row_line cat cur ytd) = (Some cat, Some cur, Some ytd) \<and>
         line_to_category_and_numbers (''  '' @ row_line cat cur ytd) = (Some cat, Some cur, Some ytd)"
proof -
  from line_to_category_and_numbers_result [OF assms] obtain c1 c2 where
    g: "good_label cat" "cur = of_int c1 / 100" "ytd = of_int c2 / 100" by blast
  have "list_all is_space []" "list_all is_space ''  ''" by (simp_all add: is_space_def)
  from row_line_reextract [OF g(1) this(1), of c1 c2] row_line_reextract [OF g(1) this(2), of c1 c2]
  show ?thesis unfolding g(2,3) by simp
qed

subsection \<open>Lines of a text\<close>







subsection \<open>The rows of the readable text\<close>








subsection \<open>The records of the parser\<close>















text \<open>
  In the other direction a record of the parser can be missing from the text: the
  provider row \<^verbatim>\<open>REPORT FEE\<close> passes the filter of \<^verbatim>\<open>parse_provider_page\<close> (which looks for
  \<^verbatim>\<open>REPORT:\<close>) and is left out of the text as a meta category (\<^verbatim>\<open>REPORT\<close>), while the
  index line of its provider is read back.
\<close>

lemma meta_row_not_rendered:
  "(case parse_pages [''ACCESS BONUS PAYMENT 10.00 20.00'', ''SUMMARY'',
                      ''JANE DOE'' @ [CHR 0x0A] @ ''REPORT FEE 5.00 6.00''] of
      (group_rows, provider_entries) \<Rightarrow>
        map pe_rows provider_entries = [[(''REPORT FEE'', 5, 6)]] \<and>
        map_option reextract (build_text no_metadata group_rows provider_entries) =
          Some [(''ACCESS BONUS PAYMENT'', 10, 20), (''Unknown Provider'', 5, 6)])"
  by code_simp

end
